theory Spec2Isabelle
  imports Main "HOL-Library.Word"
begin

unbundle bit_operations_syntax

section \<open>Wire protocol codec (GrpcWebClient, src/services/refresh.ts)\<close>

text \<open>
  A \<open>Uint8Array\<close> is a list of 8-bit words. The bitwise operators of the source work on
  32-bit integers: \<open>>>\<close> is the arithmetic shift of the operand read as a signed 32-bit
  value, \<open><<\<close> and \<open>|\<close> work on 32 bits and \<open>>>> 0\<close> reads the result as unsigned.
\<close>

type_synonym byte = "8 word"

subsection \<open>encodePayload\<close>

definition encodePayload :: "byte list \<Rightarrow> byte list" where
  "encodePayload data =
     (let len = (of_nat (length data) :: 32 word) in
      [0x00,
       ucast (signed_drop_bit 24 len AND 0xff),
       ucast (signed_drop_bit 16 len AND 0xff),
       ucast (signed_drop_bit 8 len AND 0xff),
       ucast (len AND 0xff)] @ data)"

text \<open>The four bytes of a length in network order, written with division and remainder.\<close>

definition be32 :: "nat \<Rightarrow> byte list" where
  "be32 n = [of_nat (n div 2 ^ 24 mod 256), of_nat (n div 2 ^ 16 mod 256),
             of_nat (n div 2 ^ 8 mod 256), of_nat (n mod 256)]"

subsection \<open>parseResponse\<close>

text \<open>
  Text is a list of characters. The platform functions the source calls
  (\<open>TextDecoder.decode\<close>, \<open>atob\<close> followed by \<open>charCodeAt\<close>, \<open>decodeURIComponent\<close>,
  \<open>String.toLowerCase\<close>) are parameters; \<open>atob\<close> and \<open>decodeURIComponent\<close> may throw,
  which is the value \<open>None\<close>.
\<close>

record platform =
  textDecode :: "byte list \<Rightarrow> string"
  atobBytes :: "string \<Rightarrow> byte list option"
  decodeURIComponent :: "string \<Rightarrow> string option"
  toLowerCase :: "string \<Rightarrow> string"

datatype grpc_error = CompressedNotSupported | InvalidCharacterError

record parsed =
  messages :: "byte list list"
  trailers :: "string \<rightharpoonup> string"

text \<open>The characters \<open>\s\<close> and \<open>trim\<close> remove, among the 8-bit characters.\<close>

definition isSpace :: "char \<Rightarrow> bool" where
  "isSpace c = ((of_char c :: nat) \<in> {9, 10, 11, 12, 13, 32, 160})"

definition trim :: "string \<Rightarrow> string" where
  "trim s = rev (dropWhile isSpace (rev (dropWhile isSpace s)))"

text \<open>\<open>s.includes(t)\<close>.\<close>

fun includesStr :: "string \<Rightarrow> string \<Rightarrow> bool" where
  "includesStr [] t = (t = [])"
| "includesStr (c # s) t = (take (length t) (c # s) = t \<or> includesStr s t)"

text \<open>\<open>s.indexOf(":")\<close>, \<open>None\<close> for -1.\<close>

fun indexOf :: "string \<Rightarrow> char \<Rightarrow> nat option" where
  "indexOf [] ch = None"
| "indexOf (c # s) ch = (if c = ch then Some 0 else map_option Suc (indexOf s ch))"

text \<open>\<open>text.split(/\r?\n/)\<close>: the current line is kept in reverse while it is read.\<close>

fun splitLines :: "string \<Rightarrow> string \<Rightarrow> string list" where
  "splitLines cur [] = [rev cur]"
| "splitLines cur (c # s) =
     (if c = CHR 0x0A then rev cur # splitLines [] s
      else if c = CHR 0x0D \<and> (case s of d # _ \<Rightarrow> d = CHR 0x0A | [] \<Rightarrow> False)
      then rev cur # splitLines [] (tl s)
      else splitLines (c # cur) s)"

definition parseTrailerLine :: "platform \<Rightarrow> (string \<rightharpoonup> string) \<Rightarrow> string \<Rightarrow> (string \<rightharpoonup> string)" where
  "parseTrailerLine P tr line =
     (case indexOf line (CHR '':'') of
        None \<Rightarrow> tr
      | Some colonIdx \<Rightarrow>
          if colonIdx > 0 then
            (let key = toLowerCase P (trim (take colonIdx line));
                 raw = trim (drop (colonIdx + 1) line);
                 val = (case decodeURIComponent P raw of Some v \<Rightarrow> v | None \<Rightarrow> raw)
             in tr(key \<mapsto> val))
          else tr)"

definition parseTrailerFrame :: "platform \<Rightarrow> (string \<rightharpoonup> string) \<Rightarrow> byte list \<Rightarrow> (string \<rightharpoonup> string)" where
  "parseTrailerFrame P tr payload =
     (let text = textDecode P payload;
          lines = filter (\<lambda>l. trim l \<noteq> []) (splitLines [] text)
      in foldl (parseTrailerLine P) tr lines)"

text \<open>The 32-bit length read from the four bytes after the flag.\<close>

definition frameLength :: "byte list \<Rightarrow> nat \<Rightarrow> nat" where
  "frameLength decoded i =
     unat ((push_bit 24 (ucast (decoded ! (i + 1)) :: 32 word)) OR
           (push_bit 16 (ucast (decoded ! (i + 2)) :: 32 word)) OR
           (push_bit 8 (ucast (decoded ! (i + 3)) :: 32 word)) OR
           (ucast (decoded ! (i + 4)) :: 32 word))"

text \<open>
  The \<open>while (i < n)\<close> loop. Every read \<open>decoded ! j\<close> is below \<open>n\<close>, since the loop
  leaves when fewer than five bytes remain.
\<close>

function parseFrames :: "platform \<Rightarrow> byte list \<Rightarrow> nat \<Rightarrow> parsed \<Rightarrow> grpc_error + parsed" where
  "parseFrames P decoded i acc =
     (let n = length decoded in
      if i < n then
        if n - i < 5 then Inr acc
        else
          let flag = decoded ! i;
              len = frameLength decoded i;
              i1 = i + 5
          in if n - i1 < len then Inr acc
             else
               let payload = take len (drop i1 decoded);
                   i2 = i1 + len
               in if flag AND 0x80 \<noteq> 0 then
                    parseFrames P decoded i2 (acc\<lparr>trailers := parseTrailerFrame P (trailers acc) payload\<rparr>)
                  else if flag AND 0x01 \<noteq> 0 then Inl CompressedNotSupported
                  else parseFrames P decoded i2 (acc\<lparr>messages := messages acc @ [payload]\<rparr>)
      else Inr acc)"
  by pat_completeness auto
termination
  by (relation "measure (\<lambda>(P, decoded, i, acc). length decoded - i)") auto

declare parseFrames.simps [simp del]

text \<open>
  The fallback on the response headers. \<open>headers.get\<close> is a function from a name to a
  value or null; a value is used when it is truthy, that is, not the empty string.
\<close>

definition mergeHeaders :: "platform \<Rightarrow> (string \<Rightarrow> string option) \<Rightarrow> (string \<rightharpoonup> string) \<Rightarrow> (string \<rightharpoonup> string)" where
  "mergeHeaders P hdrs tr =
     (let status = hdrs ''grpc-status'';
          message = hdrs ''grpc-message'';
          tr1 = (case status of
                   Some s \<Rightarrow> if s \<noteq> [] \<and> tr ''grpc-status'' = None then tr(''grpc-status'' \<mapsto> s) else tr
                 | None \<Rightarrow> tr)
      in case message of
           Some m \<Rightarrow>
             if m \<noteq> [] \<and> tr1 ''grpc-message'' = None
             then tr1(''grpc-message'' \<mapsto> (case decodeURIComponent P m of Some v \<Rightarrow> v | None \<Rightarrow> m))
             else tr1
         | None \<Rightarrow> tr1)"

text \<open>\<open>contentType?.toLowerCase().includes("grpc-web-text")\<close>, false without a content type.\<close>

definition isGrpcWebText :: "platform \<Rightarrow> string option \<Rightarrow> bool" where
  "isGrpcWebText P contentType =
     (case contentType of
        Some ct \<Rightarrow> includesStr (toLowerCase P ct) ''grpc-web-text''
      | None \<Rightarrow> False)"

definition parseResponse ::
  "platform \<Rightarrow> byte list \<Rightarrow> string option \<Rightarrow> (string \<Rightarrow> string option) option \<Rightarrow> grpc_error + parsed" where
  "parseResponse P body contentType headers =
     (let decoded = (if isGrpcWebText P contentType
                     then atobBytes P (filter (\<lambda>c. \<not> isSpace c) (textDecode P body))
                     else Some body)
      in case decoded of
           None \<Rightarrow> Inl InvalidCharacterError
         | Some d \<Rightarrow>
             (case parseFrames P d 0 \<lparr>messages = [], trailers = Map.empty\<rparr> of
                Inl e \<Rightarrow> Inl e
              | Inr r \<Rightarrow>
                  (case headers of
                     Some h \<Rightarrow> Inr (r\<lparr>trailers := mergeHeaders P h (trailers r)\<rparr>)
                   | None \<Rightarrow> Inr r)))"

subsection \<open>getStatus\<close>

record GrpcStatus =
  code :: int
  message :: string
  grpc_ok :: bool
  httpEquiv :: int

definition isDigit :: "char \<Rightarrow> bool" where
  "isDigit c = (48 \<le> (of_char c :: nat) \<and> (of_char c :: nat) \<le> 57)"

definition digitsValue :: "string \<Rightarrow> int" where
  "digitsValue ds = foldl (\<lambda>acc c. 10 * acc + (int (of_char c) - 48)) 0 ds"

text \<open>
  \<open>parseInt(s, 10)\<close>: leading white space is skipped, one sign is read, then the longest
  run of decimal digits; \<open>None\<close> is NaN, when there is no digit. The value is the exact
  integer (the source's number is a double, exact below \<open>2 ^ 53\<close>).
\<close>

definition parseInt10 :: "string \<Rightarrow> int option" where
  "parseInt10 s =
     (let t = dropWhile isSpace s;
          neg = (case t of c # _ \<Rightarrow> c = CHR ''-'' | [] \<Rightarrow> False);
          u = (case t of c # r \<Rightarrow> if c = CHR ''-'' \<or> c = CHR ''+'' then r else t | [] \<Rightarrow> t);
          ds = takeWhile isDigit u
      in if ds = [] then None
         else Some (if neg then - digitsValue ds else digitsValue ds))"

text \<open>The table \<open>httpEquivMap\<close>; \<open>None\<close> is a missing key.\<close>

definition httpEquivMap :: "int \<rightharpoonup> int" where
  "httpEquivMap = [0 \<mapsto> 200, 16 \<mapsto> 401, 7 \<mapsto> 403, 8 \<mapsto> 429, 4 \<mapsto> 504, 14 \<mapsto> 503]"

text \<open>
  \<open>parseInt(codeStr, 10) || -1\<close>: the right operand is taken when the left one is falsy,
  which NaN and 0 both are.
\<close>

definition getStatus :: "(string \<rightharpoonup> string) \<Rightarrow> GrpcStatus" where
  "getStatus trs =
     (let codeStr = (case trs ''grpc-status'' of Some s \<Rightarrow> s | None \<Rightarrow> ''-1'');
          msg = (case trs ''grpc-message'' of Some s \<Rightarrow> s | None \<Rightarrow> '''');
          c = (case parseInt10 codeStr of
                 Some v \<Rightarrow> if v = 0 then -1 else v
               | None \<Rightarrow> -1)
      in \<lparr>code = c, message = msg, grpc_ok = (c = 0 \<or> c = -1),
          httpEquiv = (case httpEquivMap c of Some h \<Rightarrow> h | None \<Rightarrow> 502)\<rparr>)"

section \<open>Batch task (src/batch.ts)\<close>

text \<open>
  Values of type \<open>unknown\<close> (the detail of a progress event, the result of a finished
  task) are a type parameter \<open>'v\<close>. Counters are natural numbers.
\<close>

datatype Status = Running | Done | Error | Cancelled

datatype 'v BatchEvent =
    ProgressEvent string nat nat nat nat "string option" "'v option" "string option"
  | DoneEvent string nat nat nat nat "string option" 'v
  | ErrorEvent string nat nat nat nat string
  | CancelledEvent string nat nat nat nat

text \<open>\<open>event.type === "done" || event.type === "error" || event.type === "cancelled"\<close>.\<close>

fun isFinal :: "'v BatchEvent \<Rightarrow> bool" where
  "isFinal (ProgressEvent i t p k f it d e) = False"
| "isFinal (DoneEvent i t p k f w r) = True"
| "isFinal (ErrorEvent i t p k f e) = True"
| "isFinal (CancelledEvent i t p k f) = True"

text \<open>
  A subscriber handle is an object in the source, found again by its identity
  (\<open>queues.indexOf(handle)\<close>). Here a handle is a number, given out by \<open>attach\<close> from the
  counter \<open>nextHandle\<close>, and \<open>queues\<close> pairs each attached handle with its queue.
\<close>

record 'v BatchTask =
  id' :: string
  total :: nat
  processed :: nat
  ok :: nat
  fail :: nat
  status :: Status
  warning :: "string option"
  result :: "'v option"
  error :: "string option"
  createdAt :: nat
  cancelled :: bool
  queues :: "(nat \<times> 'v BatchEvent list) list"
  finalEvent :: "'v BatchEvent option"
  nextHandle :: nat

text \<open>The constructor; the random identifier and the clock are inputs.\<close>

definition newBatchTask :: "string \<Rightarrow> nat \<Rightarrow> nat \<Rightarrow> 'v BatchTask" where
  "newBatchTask uuid now n =
     \<lparr>id' = filter (\<lambda>c. c \<noteq> CHR ''-'') uuid, total = n, processed = 0, ok = 0, fail = 0,
      status = Running, warning = None, result = None, error = None, createdAt = now,
      cancelled = False, queues = [], finalEvent = None, nextHandle = 0\<rparr>"

text \<open>The closure \<open>push\<close> of a handle, on its queue.\<close>

definition push :: "'v BatchEvent list \<Rightarrow> 'v BatchEvent \<Rightarrow> 'v BatchEvent list" where
  "push queue event = (if length queue < 200 then queue @ [event] else queue)"

definition attach :: "'v BatchTask \<Rightarrow> nat \<times> 'v BatchTask" where
  "attach t =
     (let handle = nextHandle t
      in (handle, t\<lparr>queues := queues t @ [(handle, [])], nextHandle := handle + 1\<rparr>))"

text \<open>\<open>splice(idx, 1)\<close> at the first position holding the handle, when there is one.\<close>

fun removeFirst :: "nat \<Rightarrow> (nat \<times> 'q) list \<Rightarrow> (nat \<times> 'q) list" where
  "removeFirst h [] = []"
| "removeFirst h (x # xs) = (if fst x = h then xs else x # removeFirst h xs)"

definition detach :: "nat \<Rightarrow> 'v BatchTask \<Rightarrow> 'v BatchTask" where
  "detach handle t = t\<lparr>queues := removeFirst handle (queues t)\<rparr>"

definition publish :: "'v BatchEvent \<Rightarrow> 'v BatchTask \<Rightarrow> 'v BatchTask" where
  "publish event t = t\<lparr>queues := map (\<lambda>(h, q). (h, push q event)) (queues t)\<rparr>"

record 'v RecordOpts =
  opt_item :: "string option"
  opt_detail :: "'v option"
  opt_error :: "string option"

text \<open>
  \<open>record(success, opts)\<close>. The item and the detail are copied when they are defined, the
  error when it is truthy, that is, defined and not the empty string.
\<close>

definition record' :: "bool \<Rightarrow> 'v RecordOpts option \<Rightarrow> 'v BatchTask \<Rightarrow> 'v BatchTask" where
  "record' success opts t =
     (let t1 = t\<lparr>processed := processed t + 1\<rparr>;
          t2 = (if success then t1\<lparr>ok := ok t1 + 1\<rparr> else t1\<lparr>fail := fail t1 + 1\<rparr>);
          event = ProgressEvent (id' t2) (total t2) (processed t2) (ok t2) (fail t2)
                    (case opts of Some os \<Rightarrow> opt_item os | None \<Rightarrow> None)
                    (case opts of Some os \<Rightarrow> opt_detail os | None \<Rightarrow> None)
                    (case opts of
                       Some os \<Rightarrow> (case opt_error os of
                                    Some e \<Rightarrow> if e \<noteq> [] then Some e else None
                                  | None \<Rightarrow> None)
                     | None \<Rightarrow> None)
      in publish event t2)"

definition finish :: "'v \<Rightarrow> string option \<Rightarrow> 'v BatchTask \<Rightarrow> 'v BatchTask" where
  "finish res warn t =
     (let t1 = t\<lparr>status := Done, result := Some res, warning := warn\<rparr>;
          event = DoneEvent (id' t1) (total t1) (processed t1) (ok t1) (fail t1) (warning t1) res
      in publish event (t1\<lparr>finalEvent := Some event\<rparr>))"

definition failTask :: "string \<Rightarrow> 'v BatchTask \<Rightarrow> 'v BatchTask" where
  "failTask err t =
     (let t1 = t\<lparr>status := Error, error := Some err\<rparr>;
          event = ErrorEvent (id' t1) (total t1) (processed t1) (ok t1) (fail t1) err
      in publish event (t1\<lparr>finalEvent := Some event\<rparr>))"

definition cancel :: "'v BatchTask \<Rightarrow> 'v BatchTask" where
  "cancel t = t\<lparr>cancelled := True\<rparr>"

definition finishCancelled :: "'v BatchTask \<Rightarrow> 'v BatchTask" where
  "finishCancelled t =
     (let t1 = t\<lparr>status := Cancelled\<rparr>;
          event = CancelledEvent (id' t1) (total t1) (processed t1) (ok t1) (fail t1)
      in publish event (t1\<lparr>finalEvent := Some event\<rparr>))"

definition getFinalEvent :: "'v BatchTask \<Rightarrow> 'v BatchEvent option" where
  "getFinalEvent t = finalEvent t"

subsection \<open>The task registry\<close>

text \<open>The global \<open>TASKS\<close> map is a state passed in and returned.\<close>

type_synonym 'v registry = "string \<rightharpoonup> 'v BatchTask"

definition createTask :: "string \<Rightarrow> nat \<Rightarrow> nat \<Rightarrow> 'v registry \<Rightarrow> 'v BatchTask \<times> 'v registry" where
  "createTask uuid now n TASKS =
     (let task = newBatchTask uuid now n in (task, TASKS(id' task \<mapsto> task)))"

definition getTask :: "string \<Rightarrow> 'v registry \<Rightarrow> 'v BatchTask option" where
  "getTask taskId TASKS = TASKS taskId"

definition deleteTask :: "string \<Rightarrow> 'v registry \<Rightarrow> 'v registry" where
  "deleteTask taskId TASKS = TASKS(taskId := None)"

section \<open>Batch executor (runBatch, src/batch.ts)\<close>

text \<open>
  An entry of the result map, \<open>{ok, data?, error?, cancelled?}\<close>; a missing property is
  \<open>None\<close>.
\<close>

record 'r ItemResult =
  r_ok :: bool
  r_data :: "'r option"
  r_error :: "string option"
  r_cancelled :: "bool option"

text \<open>
  The worker maps an item to its settled promise: \<open>Inr data\<close> when it resolves,
  \<open>Inl msg\<close> when it rejects, \<open>msg\<close> being \<open>e.message\<close> or \<open>String(e)\<close>.

  The cancellation condition \<open>(shouldCancel?.() ?? false) || (task?.cancelled ?? false)\<close>
  is evaluated at fixed places of the run; the evaluations are counted in \<open>checks\<close>.
  The caller's predicate is a function of that count (the value its n-th call returns),
  and \<open>cancelCalls n\<close> tells whether other code has called \<open>task.cancel()\<close> since the
  evaluation before the n-th.
\<close>

record BatchOptions =
  batchSize :: "int option"
  shouldCancel :: "(nat \<Rightarrow> bool) option"

record ('t, 'r, 'v) RunState =
  results :: "'t \<rightharpoonup> 'r ItemResult"
  task :: "'v BatchTask option"
  checks :: nat

text \<open>\<open>Math.max(1, options.batchSize ?? 50)\<close>, for an integer batch size.\<close>

definition batchSizeOf :: "BatchOptions \<Rightarrow> nat" where
  "batchSizeOf opts = nat (max 1 (case batchSize opts of Some b \<Rightarrow> b | None \<Rightarrow> 50))"

definition checkCancel ::
  "BatchOptions \<Rightarrow> (nat \<Rightarrow> bool) \<Rightarrow> ('t, 'r, 'v) RunState \<Rightarrow> bool \<times> ('t, 'r, 'v) RunState" where
  "checkCancel opts cancelCalls st =
     (let n = checks st;
          tk = (if cancelCalls n then map_option cancel (task st) else task st);
          c = ((case shouldCancel opts of Some f \<Rightarrow> f n | None \<Rightarrow> False) \<or>
               (case tk of Some t \<Rightarrow> cancelled t | None \<Rightarrow> False))
      in (c, st\<lparr>task := tk, checks := n + 1\<rparr>))"

definition cancelledResult :: "'r ItemResult" where
  "cancelledResult = \<lparr>r_ok = False, r_data = None, r_error = Some ''cancelled'', r_cancelled = Some True\<rparr>"

text \<open>
  \<open>chunk.map(processOne)\<close> runs every \<open>processOne\<close> up to its \<open>await\<close>: the cancellation
  condition is evaluated for each item in turn, a cancelled item gets its entry at once,
  the others are started. The started items are returned.
\<close>

fun dispatch ::
  "BatchOptions \<Rightarrow> (nat \<Rightarrow> bool) \<Rightarrow> 't list \<Rightarrow> ('t, 'r, 'v) RunState \<Rightarrow> 't list \<times> ('t, 'r, 'v) RunState" where
  "dispatch opts cancelCalls [] st = ([], st)"
| "dispatch opts cancelCalls (item # rest) st =
     (case checkCancel opts cancelCalls st of
        (c, st1) \<Rightarrow>
          if c then dispatch opts cancelCalls rest (st1\<lparr>results := (results st1)(item \<mapsto> cancelledResult)\<rparr>)
          else (case dispatch opts cancelCalls rest st1 of (started, st2) \<Rightarrow> (item # started, st2)))"

text \<open>The rest of \<open>processOne\<close>, after the worker has settled.\<close>

definition settleOne :: "('t \<Rightarrow> string + 'r) \<Rightarrow> 't \<Rightarrow> ('t, 'r, 'v) RunState \<Rightarrow> ('t, 'r, 'v) RunState" where
  "settleOne worker item st =
     (case worker item of
        Inr d \<Rightarrow>
          st\<lparr>results := (results st)(item \<mapsto> \<lparr>r_ok = True, r_data = Some d, r_error = None, r_cancelled = None\<rparr>),
             task := map_option (record' True None) (task st)\<rparr>
      | Inl e \<Rightarrow>
          st\<lparr>results := (results st)(item \<mapsto> \<lparr>r_ok = False, r_data = None, r_error = Some e, r_cancelled = None\<rparr>),
             task := map_option (record' False (Some \<lparr>opt_item = None, opt_detail = None, opt_error = Some e\<rparr>)) (task st)\<rparr>)"

text \<open>
  \<open>await Promise.all(...)\<close>: the started items settle, here in the order in which they
  were started. The worker is a function of the item and settling an item writes the
  entry of that item and increments counters, so another order gives the same map and
  the same counters; it changes the order of the progress events only.
\<close>

fun settle :: "('t \<Rightarrow> string + 'r) \<Rightarrow> 't list \<Rightarrow> ('t, 'r, 'v) RunState \<Rightarrow> ('t, 'r, 'v) RunState" where
  "settle worker [] st = st"
| "settle worker (item # rest) st = settle worker rest (settleOne worker item st)"

definition processChunk ::
  "BatchOptions \<Rightarrow> (nat \<Rightarrow> bool) \<Rightarrow> ('t \<Rightarrow> string + 'r) \<Rightarrow> 't list \<Rightarrow> ('t, 'r, 'v) RunState \<Rightarrow> ('t, 'r, 'v) RunState" where
  "processChunk opts cancelCalls worker chunk st =
     (case dispatch opts cancelCalls chunk st of (started, st1) \<Rightarrow> settle worker started st1)"

text \<open>\<open>items.slice(i, j)\<close> for \<open>0 \<le> i \<le> j\<close>.\<close>

definition slice' :: "'a list \<Rightarrow> nat \<Rightarrow> nat \<Rightarrow> 'a list" where
  "slice' xs i j = take (j - i) (drop i xs)"

text \<open>The \<open>for\<close> loop over the chunks, from index \<open>i\<close>.\<close>

function chunkLoop ::
  "BatchOptions \<Rightarrow> (nat \<Rightarrow> bool) \<Rightarrow> ('t \<Rightarrow> string + 'r) \<Rightarrow> 't list \<Rightarrow> nat \<Rightarrow> ('t, 'r, 'v) RunState \<Rightarrow> ('t, 'r, 'v) RunState" where
  "chunkLoop opts cancelCalls worker items i st =
     (if i < length items then
        (case checkCancel opts cancelCalls st of
           (c, st1) \<Rightarrow>
             if c then st1
             else chunkLoop opts cancelCalls worker items (i + batchSizeOf opts)
                    (processChunk opts cancelCalls worker (slice' items i (i + batchSizeOf opts)) st1))
      else st)"
  by pat_completeness auto
termination
  by (relation "measure (\<lambda>(opts, cancelCalls, worker, items, i, st). length items - i)")
     (auto simp add: batchSizeOf_def)

declare chunkLoop.simps [simp del]

text \<open>
  \<open>runBatch\<close> returns the result map; the task it was given is changed in place, so the
  final state holds both.
\<close>

definition runBatch ::
  "'t list \<Rightarrow> ('t \<Rightarrow> string + 'r) \<Rightarrow> BatchOptions \<Rightarrow> 'v BatchTask option \<Rightarrow> (nat \<Rightarrow> bool) \<Rightarrow> ('t, 'r, 'v) RunState" where
  "runBatch items worker opts tk cancelCalls =
     chunkLoop opts cancelCalls worker items 0 \<lparr>results = Map.empty, task = tk, checks = 0\<rparr>"

section \<open>Progress stream publisher (createBatchEventStream, src/batch.ts)\<close>

text \<open>
  The stream is the state of its controller: the chunks enqueued so far (as text, before
  \<open>TextEncoder.encode\<close>), whether the interval is still set and whether the stream is
  closed, together with the task and the handle the stream attached. \<open>JSON.stringify\<close> is
  a parameter; \<open>None\<close> is its exception.
\<close>

record 'v StreamState =
  s_task :: "'v BatchTask"
  s_handle :: nat
  enqueued :: "string list"
  polling :: bool
  closed :: bool

text \<open>
  \<open>sendEvent\<close>: an exception of \<open>JSON.stringify\<close> or of \<open>controller.enqueue\<close> (which
  throws on a closed stream) is caught and logged, and nothing is enqueued.
\<close>

definition sendEvent :: "('v BatchEvent \<Rightarrow> string option) \<Rightarrow> 'v BatchEvent \<Rightarrow> 'v StreamState \<Rightarrow> 'v StreamState" where
  "sendEvent json event st =
     (case json event of
        Some j \<Rightarrow>
          if closed st then st
          else st\<lparr>enqueued := enqueued st @ [''data: '' @ j @ [CHR 0x0A, CHR 0x0A] ]\<rparr>
      | None \<Rightarrow> st)"

definition start :: "('v BatchEvent \<Rightarrow> string option) \<Rightarrow> 'v BatchTask \<Rightarrow> 'v StreamState" where
  "start json tk =
     (case attach tk of
        (handle, t1) \<Rightarrow>
          sendEvent json
            (ProgressEvent (id' t1) (total t1) (processed t1) (ok t1) (fail t1) None None None)
            \<lparr>s_task = t1, s_handle = handle, enqueued = [], polling = True, closed = False\<rparr>)"

text \<open>The queue of a handle, and the task with that queue replaced.\<close>

definition queueOf :: "nat \<Rightarrow> 'v BatchTask \<Rightarrow> 'v BatchEvent list" where
  "queueOf h t = (case map_of (queues t) h of Some q \<Rightarrow> q | None \<Rightarrow> [])"

definition setQueue :: "nat \<Rightarrow> 'v BatchEvent list \<Rightarrow> 'v BatchTask \<Rightarrow> 'v BatchTask" where
  "setQueue h q t = t\<lparr>queues := map (\<lambda>(i, q'). if i = h then (i, q) else (i, q')) (queues t)\<rparr>"

text \<open>
  The \<open>while (handle.queue.length > 0)\<close> loop of the interval callback, on the events
  still in the queue: each is shifted out and sent; a final event clears the interval,
  detaches the handle, closes the stream and returns.
\<close>

fun drain :: "('v BatchEvent \<Rightarrow> string option) \<Rightarrow> 'v BatchEvent list \<Rightarrow> 'v StreamState \<Rightarrow> 'v StreamState" where
  "drain json [] st = st\<lparr>s_task := setQueue (s_handle st) [] (s_task st)\<rparr>"
| "drain json (event # rest) st =
     (let st1 = sendEvent json event st
      in if isFinal event
         then st1\<lparr>polling := False, s_task := detach (s_handle st1) (s_task st1), closed := True\<rparr>
         else drain json rest st1)"

text \<open>
  One firing of the interval; a cleared interval does not fire. The stream is modelled up
  to its closing by a final event; a consumer that cancels the stream is not.
\<close>

definition tick :: "('v BatchEvent \<Rightarrow> string option) \<Rightarrow> 'v StreamState \<Rightarrow> 'v StreamState" where
  "tick json st =
     (if polling st then drain json (queueOf (s_handle st) (s_task st)) st else st)"

text \<open>
  What happens to a task while a stream is open: the interval fires, or the owner of the
  task or another subscriber calls one of the task's methods. The handle of the stream
  is held by the stream alone, so another subscriber detaches another handle.
\<close>

datatype 'v action =
    Tick
  | Record bool "'v RecordOpts option"
  | Finish 'v "string option"
  | FailTask string
  | FinishCancelled
  | Cancel
  | Attach
  | Detach nat

fun step :: "('v BatchEvent \<Rightarrow> string option) \<Rightarrow> 'v action \<Rightarrow> 'v StreamState \<Rightarrow> 'v StreamState" where
  "step json Tick st = tick json st"
| "step json (Record success opts) st = st\<lparr>s_task := record' success opts (s_task st)\<rparr>"
| "step json (Finish res warn) st = st\<lparr>s_task := finish res warn (s_task st)\<rparr>"
| "step json (FailTask err) st = st\<lparr>s_task := failTask err (s_task st)\<rparr>"
| "step json FinishCancelled st = st\<lparr>s_task := finishCancelled (s_task st)\<rparr>"
| "step json Cancel st = st\<lparr>s_task := cancel (s_task st)\<rparr>"
| "step json Attach st = st\<lparr>s_task := snd (attach (s_task st))\<rparr>"
| "step json (Detach h) st =
     (if h = s_handle st then st else st\<lparr>s_task := detach h (s_task st)\<rparr>)"

fun run :: "('v BatchEvent \<Rightarrow> string option) \<Rightarrow> 'v action list \<Rightarrow> 'v StreamState \<Rightarrow> 'v StreamState" where
  "run json [] st = st"
| "run json (a # as) st = run json as (step json a st)"

section \<open>Functions used to state the properties\<close>

text \<open>
  The definitions of this section are not part of the program. They name the inputs and
  the expected results of the properties below.
\<close>

text \<open>The decimal string of an integer, as \<open>String(c)\<close> gives it.\<close>

definition digitChar :: "nat \<Rightarrow> char" where
  "digitChar d = char_of (48 + d)"

function decDigits :: "nat \<Rightarrow> string" where
  "decDigits n = (if n < 10 then [digitChar n] else decDigits (n div 10) @ [digitChar (n mod 10)])"
  by pat_completeness auto
termination
  by (relation "measure (\<lambda>n. n)") auto

declare decDigits.simps [simp del]

definition decimal :: "int \<Rightarrow> string" where
  "decimal c = (if c < 0 then CHR ''-'' # decDigits (nat (- c)) else decDigits (nat c))"

text \<open>A sequence of \<open>record\<close> calls, each given by its two arguments.\<close>

fun recordAll :: "(bool \<times> 'v RecordOpts option) list \<Rightarrow> 'v BatchTask \<Rightarrow> 'v BatchTask" where
  "recordAll [] t = t"
| "recordAll (c # cs) t = recordAll cs (record' (fst c) (snd c) t)"

text \<open>A sequence of broadcasts.\<close>

fun publishAll :: "'v BatchEvent list \<Rightarrow> 'v BatchTask \<Rightarrow> 'v BatchTask" where
  "publishAll [] t = t"
| "publishAll (e # es) t = publishAll es (publish e t)"

text \<open>
  Calls on the registry. A call touches an identifier when it deletes it or creates a task
  whose identifier it is.
\<close>

datatype registryOp = Create string nat nat | Delete string

fun applyOp :: "registryOp \<Rightarrow> 'v registry \<Rightarrow> 'v registry" where
  "applyOp (Create uuid now n) TASKS = snd (createTask uuid now n TASKS)"
| "applyOp (Delete taskId) TASKS = deleteTask taskId TASKS"

fun applyOps :: "registryOp list \<Rightarrow> 'v registry \<Rightarrow> 'v registry" where
  "applyOps [] TASKS = TASKS"
| "applyOps (op # ops) TASKS = applyOps ops (applyOp op TASKS)"

fun touches :: "string \<Rightarrow> registryOp \<Rightarrow> bool" where
  "touches taskId (Create uuid now n) = (filter (\<lambda>c. c \<noteq> CHR ''-'') uuid = taskId)"
| "touches taskId (Delete d) = (d = taskId)"

text \<open>
  The entry \<open>runBatch\<close> stores for a settled worker, and the \<open>record\<close> call it makes
  on the task.
\<close>

fun resultOf :: "string + 'r \<Rightarrow> 'r ItemResult" where
  "resultOf (Inr d) = \<lparr>r_ok = True, r_data = Some d, r_error = None, r_cancelled = None\<rparr>"
| "resultOf (Inl e) = \<lparr>r_ok = False, r_data = None, r_error = Some e, r_cancelled = None\<rparr>"

fun callOf :: "string + 'r \<Rightarrow> bool \<times> 'v RecordOpts option" where
  "callOf (Inr d) = (True, None)"
| "callOf (Inl e) = (False, Some \<lparr>opt_item = None, opt_detail = None, opt_error = Some e\<rparr>)"

text \<open>
  Whether the n-th evaluation of the cancellation condition sees a cancellation: the
  caller's predicate returns true, or there is a task and \<open>cancel()\<close> has been called
  on it since the evaluation before. \<open>notCancelled\<close>: the flag of the task, if there is
  one, is not set when the run starts.
\<close>

definition cancelAt :: "BatchOptions \<Rightarrow> (nat \<Rightarrow> bool) \<Rightarrow> 'v BatchTask option \<Rightarrow> nat \<Rightarrow> bool" where
  "cancelAt opts cancelCalls tk n =
     ((case shouldCancel opts of Some f \<Rightarrow> f n | None \<Rightarrow> False) \<or> (tk \<noteq> None \<and> cancelCalls n))"

definition notCancelled :: "'v BatchTask option \<Rightarrow> bool" where
  "notCancelled tk = (case tk of Some t \<Rightarrow> \<not> cancelled t | None \<Rightarrow> True)"

text \<open>
  Inputs for concrete runs: a cancellation predicate that returns true from its k-th call
  on (calls are counted from 0); no call of \<open>cancel()\<close> by other code; a worker that
  rejects with the message "boom" for one item and resolves with the item itself for the
  others.
\<close>

definition fromCheck :: "nat \<Rightarrow> nat \<Rightarrow> bool" where
  "fromCheck k n = (k \<le> n)"

definition noCancelCalls :: "nat \<Rightarrow> bool" where
  "noCancelCalls n = False"

definition failOn :: "'t \<Rightarrow> 't \<Rightarrow> string + 't" where
  "failOn bad item = (if item = bad then Inl ''boom'' else Inr item)"

text \<open>
  A stand-in for \<open>JSON.stringify\<close> that tells final events from the others, and a
  platform that decodes bytes as Latin-1 and leaves the rest alone.
\<close>

definition tagJson :: "'v BatchEvent \<Rightarrow> string option" where
  "tagJson e = Some (if isFinal e then ''F'' else ''P'')"

definition rawPlatform :: platform where
  "rawPlatform = \<lparr>textDecode = map (\<lambda>b. char_of (unat b)), atobBytes = (\<lambda>s. None),
                    decodeURIComponent = Some, toLowerCase = (\<lambda>s. s)\<rparr>"

text \<open>
  One line of the event stream; the events the interval callback sends from a queue, up to
  and including the first final one; the snapshot a stream starts with.
\<close>

definition sseLine :: "string \<Rightarrow> string" where
  "sseLine j = ''data: '' @ j @ [CHR 0x0A, CHR 0x0A]"

fun upToFinal :: "'v BatchEvent list \<Rightarrow> 'v BatchEvent list" where
  "upToFinal [] = []"
| "upToFinal (e # es) = (if isFinal e then [e] else e # upToFinal es)"

definition snapshotEvent :: "'v BatchTask \<Rightarrow> 'v BatchEvent" where
  "snapshotEvent t = ProgressEvent (id' t) (total t) (processed t) (ok t) (fail t) None None None"

text \<open>
  The lines a stream carries for events: the line of each event that \<open>JSON.stringify\<close>
  accepts, none for an event on which it throws.
\<close>

definition lineOf :: "('v BatchEvent \<Rightarrow> string option) \<Rightarrow> 'v BatchEvent \<Rightarrow> string list" where
  "lineOf json e = (case json e of Some j \<Rightarrow> [sseLine j] | None \<Rightarrow> [])"

definition linesOf :: "('v BatchEvent \<Rightarrow> string option) \<Rightarrow> 'v BatchEvent list \<Rightarrow> string list" where
  "linesOf json evs = concat (map (lineOf json) evs)"

text \<open>The events a call on the task broadcasts, from the task before the call.\<close>

fun broadcastOf :: "'v action \<Rightarrow> 'v BatchTask \<Rightarrow> 'v BatchEvent list" where
  "broadcastOf (Record success opts) t =
     [ProgressEvent (id' t) (total t) (processed t + 1)
        (if success then ok t + 1 else ok t) (if success then fail t else fail t + 1)
        (case opts of Some os \<Rightarrow> opt_item os | None \<Rightarrow> None)
        (case opts of Some os \<Rightarrow> opt_detail os | None \<Rightarrow> None)
        (case opts of
           Some os \<Rightarrow> (case opt_error os of
                        Some e \<Rightarrow> if e \<noteq> [] then Some e else None
                      | None \<Rightarrow> None)
         | None \<Rightarrow> None)]"
| "broadcastOf (Finish res warn) t = [DoneEvent (id' t) (total t) (processed t) (ok t) (fail t) warn res]"
| "broadcastOf (FailTask err) t = [ErrorEvent (id' t) (total t) (processed t) (ok t) (fail t) err]"
| "broadcastOf FinishCancelled t = [CancelledEvent (id' t) (total t) (processed t) (ok t) (fail t)]"
| "broadcastOf Tick t = []"
| "broadcastOf Cancel t = []"
| "broadcastOf Attach t = []"
| "broadcastOf (Detach h) t = []"

text \<open>
  The handles of a task are distinct and were given out by \<open>attach\<close>: what object
  identity guarantees in the source.
\<close>

definition handlesOk :: "'v BatchTask \<Rightarrow> bool" where
  "handlesOk t = (distinct (map fst (queues t)) \<and> list_all (\<lambda>p. fst p < nextHandle t) (queues t))"

text \<open>
  The invariant of an open or closed stream: what was enqueued is the lines of the
  snapshot and of the events \<open>evs\<close> taken from the queue, of which only the last can
  be final; the stream is closed exactly when the last one is final, it polls exactly
  while it is open, and its handle is attached exactly while it is open.
\<close>

definition streamInv ::
  "('v BatchEvent \<Rightarrow> string option) \<Rightarrow> 'v BatchEvent \<Rightarrow> 'v BatchEvent list \<Rightarrow> 'v StreamState \<Rightarrow> bool" where
  "streamInv json snap evs st =
     (enqueued st = linesOf json (snap # evs) \<and>
      list_all (\<lambda>e. \<not> isFinal e) (butlast evs) \<and>
      closed st = (evs \<noteq> [] \<and> isFinal (last evs)) \<and>
      polling st = (\<not> closed st) \<and>
      closed st = (s_handle st \<notin> fst ` set (queues (s_task st))) \<and>
      s_handle st < nextHandle (s_task st) \<and>
      handlesOk (s_task st))"

section \<open>Properties of the codec\<close>

subsection \<open>The frame header\<close>

lemma byte_of_len:
  assumes "k \<le> 24"
  shows "(ucast (signed_drop_bit k (of_nat n :: 32 word) AND 0xff) :: byte) = of_nat (n div 2 ^ k mod 256)"
proof -
  have m: "(0xff :: 32 word) = mask 8"
    by (simp add: mask_eq_exp_minus_1)
  have "n div 2 ^ k mod 256 = take_bit 8 (drop_bit k n)"
    by (simp add: take_bit_eq_mod drop_bit_eq_div)
  moreover have "(ucast (signed_drop_bit k (of_nat n :: 32 word) AND mask 8) :: byte) =
                 of_nat (take_bit 8 (drop_bit k n))"
    using assms
    by (intro bit_word_eqI) (auto simp add: bit_simps bit_signed_drop_bit_iff)
  ultimately show ?thesis by (simp only: m)
qed

lemma byte_of_len0:
  "(ucast ((of_nat n :: 32 word) AND 0xff) :: byte) = of_nat (n mod 256)"
  using byte_of_len[of 0 n] by simp

lemma encodePayload_be32: "encodePayload p = 0 # be32 (length p) @ p"
  by (simp add: encodePayload_def be32_def Let_def byte_of_len byte_of_len0 del: of_nat_numeral)

lemma word_of_be32:
  "(push_bit 24 (ucast (of_nat (n div 2 ^ 24 mod 256) :: byte) :: 32 word)) OR
   (push_bit 16 (ucast (of_nat (n div 2 ^ 16 mod 256) :: byte) :: 32 word)) OR
   (push_bit 8 (ucast (of_nat (n div 2 ^ 8 mod 256) :: byte) :: 32 word)) OR
   (ucast (of_nat (n mod 256) :: byte) :: 32 word) = of_nat n"
proof -
  have e: "n div 2 ^ k mod 256 = take_bit 8 (drop_bit k n)" for k
    by (simp add: take_bit_eq_mod drop_bit_eq_div)
  have e0: "n mod 256 = take_bit 8 n"
    by (simp add: take_bit_eq_mod)
  show ?thesis
    unfolding e e0
  proof (intro bit_word_eqI)
    fix j assume j: "j < LENGTH(32)"
    consider "j < 8" | "8 \<le> j" "j < 16" | "16 \<le> j" "j < 24" | "24 \<le> j" "j < 32"
      using j by fastforce
    then show "bit (push_bit 24 (ucast (word_of_nat (take_bit 8 (drop_bit 24 n)) :: byte) :: 32 word) OR
           push_bit 16 (ucast (word_of_nat (take_bit 8 (drop_bit 16 n)) :: byte)) OR
           push_bit 8 (ucast (word_of_nat (take_bit 8 (drop_bit 8 n)) :: byte)) OR
           ucast (word_of_nat (take_bit 8 n) :: byte)) j = bit (word_of_nat n :: 32 word) j"
      by cases (auto simp add: bit_simps)
  qed
qed

lemma frameLength_bytes:
  "frameLength (pre @ f # a # b # c # d # rest) (length pre) =
     unat ((push_bit 24 (ucast a :: 32 word)) OR (push_bit 16 (ucast b :: 32 word)) OR
           (push_bit 8 (ucast c :: 32 word)) OR (ucast d :: 32 word))"
  by (simp add: frameLength_def nth_append)

lemma frameLength_encode_mod:
  "frameLength (pre @ encodePayload p @ rest) (length pre) = length p mod 2 ^ 32"
proof -
  have "frameLength (pre @ encodePayload p @ rest) (length pre) = unat (of_nat (length p) :: 32 word)"
    unfolding encodePayload_be32 be32_def append_Cons append_Nil frameLength_bytes word_of_be32 ..
  also have "\<dots> = length p mod 2 ^ 32"
    by (simp add: unat_of_nat)
  finally show ?thesis .
qed

lemma frameLength_encode:
  assumes "length p < 2 ^ 32"
  shows "frameLength (pre @ encodePayload p @ rest) (length pre) = length p"
  using assms by (simp add: frameLength_encode_mod)

text \<open>
  C6. For every byte array \<open>p\<close>, \<open>encodePayload p\<close> is one frame: the flag byte 0, the
  four bytes of the length of \<open>p\<close> in big-endian order, then \<open>p\<close>; the four bytes read
  back as a 32-bit number give the length modulo \<open>2 ^ 32\<close>, so the length itself
  whenever it fits 32 bits; and \<open>encodePayload [1, 2, 3]\<close> is
  \<open>[0, 0, 0, 0, 3, 1, 2, 3]\<close>.
\<close>

theorem encodePayload_frame:
  "encodePayload p = 0x00 # be32 (length p) @ p \<and>
   length (be32 (length p)) = 4 \<and>
   frameLength (encodePayload p) 0 = length p mod 2 ^ 32 \<and>
   encodePayload [1, 2, 3] = [0x00, 0x00, 0x00, 0x00, 0x03, 0x01, 0x02, 0x03]"
proof -
  have "frameLength (encodePayload p) 0 = length p mod 2 ^ 32"
    using frameLength_encode_mod[of "[]" p "[]"] by simp
  moreover have "encodePayload [1, 2, 3] = [0x00, 0x00, 0x00, 0x00, 0x03, 0x01, 0x02, 0x03]"
    by (simp add: encodePayload_def)
  ultimately show ?thesis
    by (simp add: encodePayload_be32 be32_def)
qed

subsection \<open>Reading frames back\<close>

lemma parseFrames_message:
  assumes "length p < 2 ^ 32"
  shows "parseFrames P (pre @ encodePayload p @ rest) (length pre) acc =
         parseFrames P (pre @ encodePayload p @ rest) (length (pre @ encodePayload p))
           (acc\<lparr>messages := messages acc @ [p]\<rparr>)"
proof -
  have len: "length (encodePayload p) = 5 + length p"
    by (simp add: encodePayload_be32 be32_def)
  have flag: "(pre @ encodePayload p @ rest) ! length pre = 0"
    by (simp add: encodePayload_be32 nth_append)
  have payload: "take (length p) (drop (length pre + 5) (pre @ encodePayload p @ rest)) = p"
    by (simp add: encodePayload_be32 be32_def)
  show ?thesis
    apply (subst parseFrames.simps)
    apply (simp only: Let_def frameLength_encode[OF assms] flag payload)
    apply (simp add: len add.assoc)
    done
qed

lemma parseFrames_end: "parseFrames P d (length d) acc = Inr acc"
  by (subst parseFrames.simps) simp

lemma parseFrames_concat:
  assumes "\<forall>p \<in> set ps. length p < 2 ^ 32"
  shows "parseFrames P (pre @ concat (map encodePayload ps)) (length pre) acc =
         Inr (acc\<lparr>messages := messages acc @ ps\<rparr>)"
  using assms
proof (induction ps arbitrary: pre acc)
  case Nil
  then show ?case by (simp add: parseFrames_end)
next
  case (Cons p ps)
  have "parseFrames P (pre @ concat (map encodePayload (p # ps))) (length pre) acc =
        parseFrames P ((pre @ encodePayload p) @ concat (map encodePayload ps)) (length (pre @ encodePayload p))
           (acc\<lparr>messages := messages acc @ [p]\<rparr>)"
    using parseFrames_message[of p P pre "concat (map encodePayload ps)" acc] Cons.prems by simp
  also have "\<dots> = Inr (acc\<lparr>messages := messages acc @ p # ps\<rparr>)"
    using Cons.IH[of "pre @ encodePayload p"] Cons.prems by simp
  finally show ?case .
qed

text \<open>
  C10. Round trip of the codec. For byte arrays whose lengths fit 32 bits, and a call
  with no headers and a content type that is absent or not a text one,
  \<open>parseResponse\<close> of the concatenation of their \<open>encodePayload\<close> frames does not throw
  and returns the payloads as the messages, in input order, with an empty trailer map;
  for one frame \<open>encodePayload p\<close> the messages are exactly \<open>[p]\<close>.
\<close>

theorem parseResponse_encodePayload:
  assumes "\<forall>p \<in> set ps. length p < 2 ^ 32" and "\<not> isGrpcWebText P ct" and "length q < 2 ^ 32"
  shows "parseResponse P (concat (map encodePayload ps)) ct None =
           Inr \<lparr>messages = ps, trailers = Map.empty\<rparr> \<and>
         parseResponse P (encodePayload q) ct None =
           Inr \<lparr>messages = [q], trailers = Map.empty\<rparr>"
proof -
  have many: "parseResponse P (concat (map encodePayload xs)) ct None =
           Inr \<lparr>messages = xs, trailers = Map.empty\<rparr>" if "\<forall>p \<in> set xs. length p < 2 ^ 32" for xs
    using parseFrames_concat[OF that, of P "[]" "\<lparr>messages = [], trailers = Map.empty\<rparr>"] assms(2)
    by (simp add: parseResponse_def)
  show ?thesis
    using many[of ps] many[of "[q]"] assms(1,3) by simp
qed

theorem parseResponse_encodePayload_witness:
  "parseResponse rawPlatform (concat (map encodePayload [ [1, 2, 3], [], [255] ])) None None =
     Inr \<lparr>messages = [ [1, 2, 3], [], [255] ], trailers = Map.empty\<rparr> \<and>
   parseResponse rawPlatform (encodePayload [7, 8]) None None =
     Inr \<lparr>messages = [ [7, 8] ], trailers = Map.empty\<rparr>"
  using parseResponse_encodePayload[of "[ [1, 2, 3], [], [255] ]" rawPlatform None "[7, 8]"]
  by (simp add: isGrpcWebText_def)

subsection \<open>The status of a call\<close>

lemma of_char_digitChar: "d < 10 \<Longrightarrow> (of_char (digitChar d) :: nat) = 48 + d"
  by (simp add: digitChar_def)

lemma isDigit_digitChar: "d < 10 \<Longrightarrow> isDigit (digitChar d)"
  by (simp add: isDigit_def of_char_digitChar)

lemma decDigits_digits: "list_all isDigit (decDigits n) \<and> decDigits n \<noteq> []"
proof (induction n rule: decDigits.induct)
  case (1 n)
  show ?case
  proof (cases "n < 10")
    case True
    then show ?thesis by (subst (1 2) decDigits.simps) (simp add: isDigit_digitChar)
  next
    case False
    then show ?thesis using 1 by (subst (1 2) decDigits.simps) (simp add: isDigit_digitChar)
  qed
qed

lemma digitsValue_snoc: "digitsValue (ds @ [c]) = 10 * digitsValue ds + (int (of_char c) - 48)"
  by (simp add: digitsValue_def)

lemma digitsValue_decDigits: "digitsValue (decDigits n) = int n"
proof (induction n rule: decDigits.induct)
  case (1 n)
  show ?case
  proof (cases "n < 10")
    case True
    then show ?thesis by (subst decDigits.simps) (simp add: digitsValue_def of_char_digitChar)
  next
    case False
    have ih: "digitsValue (decDigits (n div 10)) = int (n div 10)"
      using 1 False by simp
    have m: "n mod 10 < 10"
      by simp
    have "decDigits n = decDigits (n div 10) @ [digitChar (n mod 10)]"
      using False by (subst decDigits.simps) simp
    then have "digitsValue (decDigits n) = 10 * int (n div 10) + (int (48 + n mod 10) - 48)"
      by (simp only: digitsValue_snoc ih of_char_digitChar[OF m])
    also have "\<dots> = int (10 * (n div 10) + n mod 10)"
      by (simp only: of_nat_add of_nat_mult of_nat_numeral add_diff_cancel_left')
    also have "\<dots> = int n"
      by (simp only: mult_div_mod_eq)
    finally show ?thesis .
  qed
qed

lemma isDigit_not_space: "isDigit c \<Longrightarrow> \<not> isSpace c \<and> c \<noteq> CHR ''-'' \<and> c \<noteq> CHR ''+''"
  by (auto simp add: isDigit_def isSpace_def)

lemma parseInt10_digits:
  assumes "list_all isDigit ds" and "ds \<noteq> []"
  shows "parseInt10 ds = Some (digitsValue ds)" and "parseInt10 (CHR ''-'' # ds) = Some (- digitsValue ds)"
proof -
  obtain c r where ds: "ds = c # r" using assms(2) by (cases ds) auto
  have c: "isDigit c" using assms(1) ds by simp
  have tw: "takeWhile isDigit ds = ds"
    using assms(1) by (simp add: list_all_iff takeWhile_eq_all_conv)
  show "parseInt10 ds = Some (digitsValue ds)"
    using isDigit_not_space[OF c] tw assms(2) by (simp add: parseInt10_def ds Let_def)
  have "\<not> isSpace (CHR ''-'')" by (simp add: isSpace_def)
  then show "parseInt10 (CHR ''-'' # ds) = Some (- digitsValue ds)"
    using assms(2) by (simp add: parseInt10_def Let_def tw)
qed

lemma parseInt10_decimal: "parseInt10 (decimal c) = Some c"
  using parseInt10_digits[of "decDigits (nat c)"] parseInt10_digits[of "decDigits (nat (- c))"]
    decDigits_digits[of "nat c"] decDigits_digits[of "nat (- c)"]
  by (simp add: decimal_def digitsValue_decDigits)

text \<open>
  C2. On the trailer map with \<open>grpc-status\<close> \<open>"0"\<close> and \<open>grpc-message\<close> \<open>"ok"\<close>,
  \<open>getStatus\<close> returns the code -1 and the HTTP equivalent 502, with \<open>ok\<close> true: the
  parsed code 0 is falsy, so \<open>|| -1\<close> replaces it, and the entry \<open>0 \<rightarrow> 200\<close> of the table
  is never reached. For a trailer map whose \<open>grpc-status\<close> is the decimal string of any
  code \<open>c\<close> other than 0, \<open>getStatus\<close> returns the code \<open>c\<close>, \<open>ok\<close> true exactly when
  \<open>c\<close> is -1, and the HTTP equivalent of the table (16 to 401, 7 to 403, 8 to 429, 4 to
  504, 14 to 503, anything else to 502).
\<close>

theorem getStatus_decimal:
  "getStatus [''grpc-status'' \<mapsto> ''0'', ''grpc-message'' \<mapsto> ''ok''] =
     \<lparr>code = -1, message = ''ok'', grpc_ok = True, httpEquiv = 502\<rparr> \<and>
   decimal 0 = ''0'' \<and>
   getStatus (trs(''grpc-status'' \<mapsto> decimal c)) =
     \<lparr>code = (if c = 0 then -1 else c),
      message = (case trs ''grpc-message'' of Some m \<Rightarrow> m | None \<Rightarrow> ''''),
      grpc_ok = (c = 0 \<or> c = -1),
      httpEquiv = (if c = 16 then 401 else if c = 7 then 403 else if c = 8 then 429
                   else if c = 4 then 504 else if c = 14 then 503 else 502)\<rparr>"
proof -
  have 1: "getStatus [''grpc-status'' \<mapsto> ''0'', ''grpc-message'' \<mapsto> ''ok''] =
     \<lparr>code = -1, message = ''ok'', grpc_ok = True, httpEquiv = 502\<rparr>"
    by (simp add: getStatus_def parseInt10_def isSpace_def isDigit_def digitsValue_def httpEquivMap_def)
  have "(of_char (digitChar 0) :: nat) = of_char (CHR ''0'')"
    by (simp add: of_char_digitChar)
  then have "digitChar 0 = CHR ''0''"
    by (simp only: of_char_eq_iff)
  then have 2: "decimal 0 = ''0''"
    by (simp add: decimal_def decDigits.simps)
  have 3: "getStatus (trs(''grpc-status'' \<mapsto> decimal c)) =
     \<lparr>code = (if c = 0 then -1 else c),
      message = (case trs ''grpc-message'' of Some m \<Rightarrow> m | None \<Rightarrow> ''''),
      grpc_ok = (c = 0 \<or> c = -1),
      httpEquiv = (if c = 16 then 401 else if c = 7 then 403 else if c = 8 then 429
                   else if c = 4 then 504 else if c = 14 then 503 else 502)\<rparr>"
    by (simp add: getStatus_def parseInt10_decimal httpEquivMap_def Let_def)
  show ?thesis using 1 2 3 by simp
qed

section \<open>Properties of the batch task\<close>

subsection \<open>Counters\<close>

lemma record'_fields:
  "processed (record' s opts t) = processed t + 1"
  "ok (record' s opts t) = (if s then ok t + 1 else ok t)"
  "fail (record' s opts t) = (if s then fail t else fail t + 1)"
  "total (record' s opts t) = total t"
  "id' (record' s opts t) = id' t"
  "status (record' s opts t) = status t"
  "cancelled (record' s opts t) = cancelled t"
  "finalEvent (record' s opts t) = finalEvent t"
  "nextHandle (record' s opts t) = nextHandle t"
  by (simp_all add: record'_def publish_def Let_def)

lemma recordAll_fields:
  "processed (recordAll cs t) = processed t + length cs"
  "ok (recordAll cs t) = ok t + length (filter fst cs)"
  "fail (recordAll cs t) = fail t + length (filter (\<lambda>c. \<not> fst c) cs)"
  "total (recordAll cs t) = total t"
  by (induction cs arbitrary: t) (simp_all add: record'_fields)

lemma recordAll_append: "recordAll (xs @ ys) t = recordAll ys (recordAll xs t)"
  by (induction xs arbitrary: t) simp_all

lemma length_filter_split: "length (filter P xs) + length (filter (\<lambda>x. \<not> P x) xs) = length xs"
  by (induction xs) simp_all

text \<open>
  C3, as amended. For every task made by the constructor with total \<open>n\<close> and every
  sequence \<open>cs\<close> of \<open>record\<close> calls on it, \<open>ok + fail = processed\<close>, \<open>processed\<close> is
  the number of calls and \<open>total\<close> is still \<open>n\<close>, so \<open>processed \<le> total\<close> holds exactly
  when at most \<open>n\<close> calls were made; and further calls \<open>ds\<close> never decrease
  \<open>processed\<close>, \<open>ok\<close> or \<open>fail\<close>. On any task \<open>t\<close>, the calls add their number to
  \<open>processed\<close> and to \<open>ok + fail\<close> and leave \<open>total\<close> alone, so \<open>ok + fail = processed\<close>
  is kept wherever it holds.
\<close>

theorem record_counters:
  "(let t0 = newBatchTask uuid now n; t1 = recordAll cs t0; t2 = recordAll ds t1
    in ok t1 + fail t1 = processed t1 \<and>
       processed t1 = length cs \<and>
       total t1 = n \<and>
       (processed t1 \<le> total t1) = (length cs \<le> n) \<and>
       processed t1 \<le> processed t2 \<and> ok t1 \<le> ok t2 \<and> fail t1 \<le> fail t2) \<and>
   processed (recordAll cs t) = processed t + length cs \<and>
   ok (recordAll cs t) + fail (recordAll cs t) = ok t + fail t + length cs \<and>
   total (recordAll cs t) = total t"
  using length_filter_split[of fst cs]
  by (simp add: recordAll_fields newBatchTask_def Let_def)

text \<open>
  C3, as stated, fails: nothing in \<open>record\<close> looks at \<open>total\<close>. After two calls on a
  task of total 1, \<open>processed\<close> is 2.
\<close>

theorem record_counters_cex:
  "\<not> processed (recordAll [(True, None), (False, None)] (newBatchTask ''a'' 0 1 :: unit BatchTask))
     \<le> total (recordAll [(True, None), (False, None)] (newBatchTask ''a'' 0 1 :: unit BatchTask))"
  by (simp add: record'_fields newBatchTask_def)

subsection \<open>Terminal transitions\<close>

text \<open>
  C4, as amended. The terminal transitions are not guarded. Whatever the status of the
  task, \<open>finish\<close> sets it to done, \<open>failTask\<close> to error and \<open>finishCancelled\<close> to
  cancelled; each replaces the cached final event by its own event, built from the
  current counters, and pushes that event on every attached queue.
\<close>

theorem terminal_not_guarded:
  "status (finish res warn t) = Done \<and>
   finalEvent (finish res warn t) = Some (DoneEvent (id' t) (total t) (processed t) (ok t) (fail t) warn res) \<and>
   queues (finish res warn t) =
     map (\<lambda>(h, q). (h, push q (DoneEvent (id' t) (total t) (processed t) (ok t) (fail t) warn res))) (queues t) \<and>
   status (failTask err t) = Error \<and>
   finalEvent (failTask err t) = Some (ErrorEvent (id' t) (total t) (processed t) (ok t) (fail t) err) \<and>
   queues (failTask err t) =
     map (\<lambda>(h, q). (h, push q (ErrorEvent (id' t) (total t) (processed t) (ok t) (fail t) err))) (queues t) \<and>
   status (finishCancelled t) = Cancelled \<and>
   finalEvent (finishCancelled t) = Some (CancelledEvent (id' t) (total t) (processed t) (ok t) (fail t)) \<and>
   queues (finishCancelled t) =
     map (\<lambda>(h, q). (h, push q (CancelledEvent (id' t) (total t) (processed t) (ok t) (fail t)))) (queues t)"
  by (simp add: finish_def failTask_def finishCancelled_def publish_def Let_def)

text \<open>
  C4, as stated, fails: on a task already finished as done, with one subscriber,
  \<open>failTask\<close> changes the status to error, replaces the final event and broadcasts a
  second terminal event.
\<close>

theorem terminal_guard_cex:
  "status (finish () None (snd (attach (newBatchTask ''a'' 0 1)))) = Done \<and>
   status (failTask ''boom'' (finish () None (snd (attach (newBatchTask ''a'' 0 1))))) = Error \<and>
   finalEvent (failTask ''boom'' (finish () None (snd (attach (newBatchTask ''a'' 0 1))))) \<noteq>
     finalEvent (finish () None (snd (attach (newBatchTask ''a'' 0 1)))) \<and>
   queues (failTask ''boom'' (finish () None (snd (attach (newBatchTask ''a'' 0 1))))) =
     [(0, [DoneEvent ''a'' 1 0 0 0 None (), ErrorEvent ''a'' 1 0 0 0 ''boom''])]"
  by (simp add: finish_def failTask_def publish_def push_def attach_def newBatchTask_def Let_def)

subsection \<open>Broadcast\<close>

lemma push_take: "push (q @ take (200 - length q) es) e = q @ take (200 - length q) (es @ [e])"
  by (auto simp add: push_def)

lemma queues_publishAll:
  "queues (publishAll es t) = map (\<lambda>(h, q). (h, q @ take (200 - length q) es)) (queues t)"
proof (induction es arbitrary: t)
  case Nil
  then show ?case by (simp add: case_prod_unfold)
next
  case (Cons e es)
  have "(\<lambda>(h, q). (h, q @ take (200 - length q) es)) ((\<lambda>(h, q). (h, push q e)) x) =
        (\<lambda>(h, q). (h, q @ take (200 - length q) (e # es))) x" for x :: "nat \<times> 'a BatchEvent list"
    by (cases x) (auto simp add: push_def take_Cons')
  then show ?case
    by (simp add: Cons.IH publish_def comp_def)
qed

text \<open>
  C7. \<open>publish\<close> appends the event to every attached queue that holds fewer than 200
  events and leaves the other queues as they are; it returns (it cannot block or raise)
  and changes nothing else of a queue. After any sequence \<open>es\<close> of broadcasts each queue
  \<open>q\<close> is \<open>q\<close> followed by the first \<open>200 - length q\<close> events of \<open>es\<close>, in emission
  order, whatever the other queues hold: a queue that became full holds a prefix of the
  events broadcast since, and later events are dropped for it alone. A handle attached
  just before the broadcasts starts empty and ends with the first 200 events.
\<close>

theorem publish_bounded_fifo:
  "queues (publish e t) = map (\<lambda>(h, q). (h, if length q < 200 then q @ [e] else q)) (queues t) \<and>
   queues (publishAll es t) = map (\<lambda>(h, q). (h, q @ take (200 - length q) es)) (queues t) \<and>
   fst (attach t) = nextHandle t \<and>
   queues (publishAll es (snd (attach t))) =
     map (\<lambda>(h, q). (h, q @ take (200 - length q) es)) (queues t) @ [(nextHandle t, take 200 es)] \<and>
   status (publishAll es t) = status t \<and> processed (publishAll es t) = processed t"
proof -
  have f: "status (publishAll es t) = status t \<and> processed (publishAll es t) = processed t" for t :: "'a BatchTask"
    by (induction es arbitrary: t) (simp_all add: publish_def)
  show ?thesis
    by (simp add: queues_publishAll f attach_def Let_def) (simp add: publish_def push_def)
qed

section \<open>Properties of the registry\<close>

lemma applyOp_other: "\<not> touches k op \<Longrightarrow> applyOp op TASKS k = TASKS k"
  by (cases op) (auto simp add: createTask_def deleteTask_def newBatchTask_def Let_def)

lemma applyOps_other: "\<forall>op \<in> set ops. \<not> touches k op \<Longrightarrow> applyOps ops TASKS k = TASKS k"
  by (induction ops arbitrary: TASKS) (simp_all add: applyOp_other)

text \<open>
  C9. The task \<open>t\<close> returned by \<open>createTask\<close> is what \<open>getTask\<close> returns for its
  identifier, at once and after any calls \<open>ops\<close> that neither delete that identifier nor
  create a task with the same one; after \<open>deleteTask\<close> of the identifier \<open>getTask\<close>
  returns nothing. For an identifier \<open>k\<close> that was never created \<open>getTask\<close> returns
  nothing; \<open>deleteTask\<close> of an identifier the registry does not hold leaves the
  registry as it is, and \<open>deleteTask\<close> never changes the entry of another identifier.
\<close>

theorem registry_contract:
  fixes TASKS :: "'v registry"
  assumes "createTask uuid now n TASKS = (t, TASKS1)"
      and "\<forall>op \<in> set ops. \<not> touches (id' t) op"
      and "\<forall>op \<in> set ops'. \<not> touches k op"
      and "R k = None"
  shows "getTask (id' t) TASKS1 = Some t \<and>
         getTask (id' t) (applyOps ops TASKS1) = Some t \<and>
         getTask (id' t) (deleteTask (id' t) (applyOps ops TASKS1)) = None \<and>
         getTask k (applyOps ops' (Map.empty :: 'v registry)) = None \<and>
         deleteTask k R = R \<and>
         (k' \<noteq> k \<longrightarrow> getTask k' (deleteTask k TASKS) = getTask k' TASKS)"
proof -
  have t: "t = newBatchTask uuid now n" and r: "TASKS1 = TASKS(id' t \<mapsto> t)"
    using assms(1) by (auto simp add: createTask_def Let_def)
  have 1: "getTask (id' t) TASKS1 = Some t"
    by (simp add: r getTask_def)
  have 2: "getTask (id' t) (applyOps ops TASKS1) = Some t"
    using applyOps_other[OF assms(2), of TASKS1] 1 by (simp add: getTask_def)
  have 3: "getTask k (applyOps ops' (Map.empty :: 'v registry)) = None"
    using applyOps_other[OF assms(3), of "Map.empty :: 'v registry"] by (simp add: getTask_def)
  have 4: "deleteTask k R = R"
    using assms(4) by (auto simp add: deleteTask_def)
  show ?thesis
    using 1 2 3 4 by (simp add: getTask_def deleteTask_def)
qed

theorem registry_contract_witness:
  "getTask ''ab'' (snd (createTask ''a-b'' 5 3 (Map.empty :: unit registry))) =
     Some (fst (createTask ''a-b'' 5 3 (Map.empty :: unit registry))) \<and>
   getTask ''ab'' (applyOps [Create ''c-d'' 6 1, Delete ''cd'', Delete ''zz'']
      (snd (createTask ''a-b'' 5 3 (Map.empty :: unit registry)))) =
     Some (fst (createTask ''a-b'' 5 3 (Map.empty :: unit registry))) \<and>
   getTask ''ab'' (deleteTask ''ab'' (applyOps [Create ''c-d'' 6 1, Delete ''cd'', Delete ''zz'']
      (snd (createTask ''a-b'' 5 3 (Map.empty :: unit registry))))) = None \<and>
   getTask ''zz'' (applyOps [Create ''c-d'' 6 1] (Map.empty :: unit registry)) = None \<and>
   deleteTask ''zz'' (snd (createTask ''a-b'' 5 3 (Map.empty :: unit registry))) =
     snd (createTask ''a-b'' 5 3 (Map.empty :: unit registry))"
proof -
  have c: "createTask ''a-b'' 5 3 (Map.empty :: unit registry) =
           (fst (createTask ''a-b'' 5 3 (Map.empty :: unit registry)),
            snd (createTask ''a-b'' 5 3 (Map.empty :: unit registry)))"
    by simp
  have i: "id' (fst (createTask ''a-b'' 5 3 (Map.empty :: unit registry))) = ''ab''"
    by (simp add: createTask_def newBatchTask_def Let_def)
  have o1: "\<forall>op \<in> set [Create ''c-d'' 6 1, Delete ''cd'', Delete ''zz''].
              \<not> touches (id' (fst (createTask ''a-b'' 5 3 (Map.empty :: unit registry)))) op"
    by (simp add: i)
  have o2: "\<forall>op \<in> set [Create ''c-d'' 6 1]. \<not> touches ''zz'' op"
    by simp
  have r: "snd (createTask ''a-b'' 5 3 (Map.empty :: unit registry)) ''zz'' = None"
    by (simp add: createTask_def newBatchTask_def Let_def)
  show ?thesis
    using registry_contract[where R = "snd (createTask ''a-b'' 5 3 (Map.empty :: unit registry))" and k = "''zz''" and k' = "''ab''", OF c o1 o2 r]
    by (simp add: i)
qed

section \<open>Properties of the executor\<close>

lemma checkCancel_quiet:
  assumes "\<not> cancelAt opts cc (task st) (checks st)" and "notCancelled (task st)"
  shows "checkCancel opts cc st = (False, st\<lparr>checks := checks st + 1\<rparr>)"
proof (cases "task st")
  case None
  then show ?thesis
    using assms by (simp add: checkCancel_def cancelAt_def Let_def)
next
  case (Some t)
  then show ?thesis
    using assms by (simp add: checkCancel_def cancelAt_def notCancelled_def Let_def)
qed

lemma checkCancel_cancel:
  assumes "cancelAt opts cc (task st) (checks st)"
  shows "fst (checkCancel opts cc st) \<and> results (snd (checkCancel opts cc st)) = results st \<and>
         checks (snd (checkCancel opts cc st)) = checks st + 1 \<and>
         task (snd (checkCancel opts cc st)) = (if cc (checks st) then map_option cancel (task st) else task st)"
  using assms by (auto simp add: checkCancel_def cancelAt_def Let_def cancel_def split: option.splits)

lemma dispatch_quiet:
  assumes "\<forall>j. checks st \<le> j \<and> j < checks st + length chunk \<longrightarrow> \<not> cancelAt opts cc (task st) j"
      and "notCancelled (task st)"
  shows "dispatch opts cc chunk st = (chunk, st\<lparr>checks := checks st + length chunk\<rparr>)"
  using assms
proof (induction chunk arbitrary: st)
  case Nil
  then show ?case by simp
next
  case (Cons x xs)
  let ?st1 = "st\<lparr>checks := checks st + 1\<rparr>"
  have c: "checkCancel opts cc st = (False, ?st1)"
    using Cons.prems by (intro checkCancel_quiet) auto
  have "dispatch opts cc xs ?st1 = (xs, ?st1\<lparr>checks := checks ?st1 + length xs\<rparr>)"
    using Cons.prems by (intro Cons.IH) auto
  then show ?case by (simp add: c)
qed

lemma settleOne_fields:
  "results (settleOne w x st) = (results st)(x \<mapsto> resultOf (w x))"
  "task (settleOne w x st) = map_option (recordAll [callOf (w x)]) (task st)"
  "checks (settleOne w x st) = checks st"
  by (cases "w x"; cases "task st"; simp add: settleOne_def)+

lemma settle_fields:
  "results (settle w xs st) = (\<lambda>x. if x \<in> set xs then Some (resultOf (w x)) else results st x)"
  "task (settle w xs st) = map_option (recordAll (map (\<lambda>x. callOf (w x)) xs)) (task st)"
  "checks (settle w xs st) = checks st"
proof (induction xs arbitrary: st)
  case Nil
  { case 1 show ?case by simp }
  { case 2 show ?case by (cases "task st") simp_all }
  { case 3 show ?case by simp }
next
  case (Cons x xs)
  { case 1 show ?case by (auto simp add: Cons.IH settleOne_fields fun_eq_iff) }
  { case 2 show ?case by (cases "task st") (simp_all add: Cons.IH settleOne_fields) }
  { case 3 show ?case by (simp add: Cons.IH settleOne_fields) }
qed

lemma cancelled_recordAll: "cancelled (recordAll cs t) = cancelled t"
  by (induction cs arbitrary: t) (simp_all add: record'_fields)

lemma notCancelled_recordAll: "notCancelled (map_option (recordAll cs) tk) = notCancelled tk"
  by (cases tk) (simp_all add: notCancelled_def cancelled_recordAll)

lemma cancelAt_task: "(tk = None) = (tk' = None) \<Longrightarrow> cancelAt opts cc tk n = cancelAt opts cc tk' n"
  by (simp add: cancelAt_def)

lemma batchSizeOf_pos: "0 < batchSizeOf opts"
  by (simp add: batchSizeOf_def)

lemma processChunk_quiet:
  assumes "\<forall>j. checks st \<le> j \<and> j < checks st + length chunk \<longrightarrow> \<not> cancelAt opts cc (task st) j"
      and "notCancelled (task st)"
  shows "processChunk opts cc w chunk st = settle w chunk (st\<lparr>checks := checks st + length chunk\<rparr>)"
  using dispatch_quiet[OF assms] by (simp add: processChunk_def)

lemma chunkLoop_done: "length items \<le> i \<Longrightarrow> chunkLoop opts cc w items i st = st"
  by (subst chunkLoop.simps) simp

lemma chunkLoop_cancel:
  assumes "i < length items" and "cancelAt opts cc (task st) (checks st)"
  shows "chunkLoop opts cc w items i st = snd (checkCancel opts cc st)"
  using assms checkCancel_cancel[OF assms(2)]
  by (subst chunkLoop.simps) (simp add: case_prod_unfold)

lemma chunkLoop_step:
  assumes "i < length items"
      and "\<forall>j. checks st \<le> j \<and> j < checks st + 1 + length (slice' items i (i + batchSizeOf opts))
             \<longrightarrow> \<not> cancelAt opts cc (task st) j"
      and "notCancelled (task st)"
  shows "chunkLoop opts cc w items i st =
         chunkLoop opts cc w items (i + batchSizeOf opts)
           (settle w (slice' items i (i + batchSizeOf opts))
              (st\<lparr>checks := checks st + 1 + length (slice' items i (i + batchSizeOf opts))\<rparr>))"
proof -
  let ?chunk = "slice' items i (i + batchSizeOf opts)"
  let ?st1 = "st\<lparr>checks := checks st + 1\<rparr>"
  have c: "checkCancel opts cc st = (False, ?st1)"
    using assms(2,3) by (intro checkCancel_quiet) auto
  have p: "processChunk opts cc w ?chunk ?st1 = settle w ?chunk (?st1\<lparr>checks := checks ?st1 + length ?chunk\<rparr>)"
    using assms(2,3) by (intro processChunk_quiet) auto
  have "chunkLoop opts cc w items i st =
        chunkLoop opts cc w items (i + batchSizeOf opts) (processChunk opts cc w ?chunk ?st1)"
    using assms(1) by (subst chunkLoop.simps) (simp add: c)
  also have "processChunk opts cc w ?chunk ?st1 =
             settle w ?chunk (st\<lparr>checks := checks st + 1 + length ?chunk\<rparr>)"
    using p by simp
  finally show ?thesis .
qed

lemma slice'_drop: "slice' items i (i + b) @ drop (i + b) items = drop i items"
  by (simp add: slice'_def add.commute[of i b] flip: drop_drop)

lemma chunkLoop_all:
  assumes "\<forall>j. \<not> cancelAt opts cc (task st) j" and "notCancelled (task st)"
  shows "results (chunkLoop opts cc w items i st) =
           (\<lambda>x. if x \<in> set (drop i items) then Some (resultOf (w x)) else results st x) \<and>
         task (chunkLoop opts cc w items i st) =
           map_option (recordAll (map (\<lambda>x. callOf (w x)) (drop i items))) (task st)"
  using assms
proof (induction "length items - i" arbitrary: i st rule: less_induct)
  case less
  show ?case
  proof (cases "i < length items")
    case False
    then show ?thesis by (cases "task st") (simp_all add: chunkLoop_done)
  next
    case True
    define b where "b = batchSizeOf opts"
    define chunk where "chunk = slice' items i (i + b)"
    define st1 where "st1 = settle w chunk (st\<lparr>checks := checks st + 1 + length chunk\<rparr>)"
    have s: "chunkLoop opts cc w items i st = chunkLoop opts cc w items (i + b) st1"
      unfolding st1_def chunk_def b_def using True less.prems by (intro chunkLoop_step) auto
    have t1: "task st1 = map_option (recordAll (map (\<lambda>x. callOf (w x)) chunk)) (task st)"
      by (simp add: st1_def settle_fields)
    have r1: "results st1 = (\<lambda>x. if x \<in> set chunk then Some (resultOf (w x)) else results st x)"
      by (auto simp add: st1_def settle_fields fun_eq_iff)
    have eq: "(task st1 = None) = (task st = None)"
      by (simp add: t1)
    have q: "\<forall>j. \<not> cancelAt opts cc (task st1) j"
      unfolding cancelAt_task[OF eq] using less.prems(1) .
    have n: "notCancelled (task st1)"
      using less.prems(2) by (simp add: t1 notCancelled_recordAll)
    have m: "length items - (i + b) < length items - i"
      using True batchSizeOf_pos[of opts] by (simp add: b_def)
    note ih = less.hyps[OF m q n]
    have d: "drop i items = chunk @ drop (i + b) items"
      by (simp add: slice'_drop chunk_def)
    have r: "results (chunkLoop opts cc w items i st) =
           (\<lambda>x. if x \<in> set (drop i items) then Some (resultOf (w x)) else results st x)"
      by (auto simp add: s ih r1 d fun_eq_iff)
    have k: "task (chunkLoop opts cc w items i st) =
           map_option (recordAll (map (\<lambda>x. callOf (w x)) (drop i items))) (task st)"
      by (cases "task st") (simp_all add: s ih t1 d recordAll_append)
    show ?thesis using r k by simp
  qed
qed

lemma take_chunks: "i + b \<le> length items \<Longrightarrow>
   take (b + n) (drop i items) = slice' items i (i + b) @ take n (drop (i + b) items)"
  by (simp add: slice'_def take_add add.commute[of i b] flip: drop_drop)

lemma chunkLoop_cancel_after:
  assumes "i + k * batchSizeOf opts < length items"
      and "\<forall>j. checks st \<le> j \<and> j < checks st + k * (batchSizeOf opts + 1) \<longrightarrow> \<not> cancelAt opts cc (task st) j"
      and "cancelAt opts cc (task st) (checks st + k * (batchSizeOf opts + 1))"
      and "notCancelled (task st)"
  shows "results (chunkLoop opts cc w items i st) =
           (\<lambda>x. if x \<in> set (take (k * batchSizeOf opts) (drop i items)) then Some (resultOf (w x))
                else results st x) \<and>
         task (chunkLoop opts cc w items i st) =
           map_option (\<lambda>t. (if cc (checks st + k * (batchSizeOf opts + 1)) then cancel else (\<lambda>t. t))
                              (recordAll (map (\<lambda>x. callOf (w x)) (take (k * batchSizeOf opts) (drop i items))) t))
             (task st)"
  using assms
proof (induction k arbitrary: i st)
  case 0
  then have "chunkLoop opts cc w items i st = snd (checkCancel opts cc st)"
    by (intro chunkLoop_cancel) simp_all
  then show ?case
    using checkCancel_cancel[of opts cc st] 0
    by (cases "task st") (auto simp add: )
next
  case (Suc k)
  define b where "b = batchSizeOf opts"
  define chunk where "chunk = slice' items i (i + b)"
  define st1 where "st1 = settle w chunk (st\<lparr>checks := checks st + 1 + length chunk\<rparr>)"
  have il: "i + b \<le> length items" and i: "i < length items"
    using Suc.prems(1) by (simp_all add: b_def)
  have lc: "length chunk = b"
    using il by (simp add: chunk_def slice'_def)
  have s: "chunkLoop opts cc w items i st = chunkLoop opts cc w items (i + b) st1"
    unfolding st1_def chunk_def b_def using i Suc.prems(2,4) 
    by (intro chunkLoop_step) (auto simp add: slice'_def)
  have t1: "task st1 = map_option (recordAll (map (\<lambda>x. callOf (w x)) chunk)) (task st)"
    by (simp add: st1_def settle_fields)
  have r1: "results st1 = (\<lambda>x. if x \<in> set chunk then Some (resultOf (w x)) else results st x)"
    by (auto simp add: st1_def settle_fields fun_eq_iff)
  have c1: "checks st1 = checks st + 1 + b"
    by (simp add: st1_def settle_fields lc)
  have eq: "(task st1 = None) = (task st = None)"
    by (simp add: t1)
  have q: "\<forall>j. checks st1 \<le> j \<and> j < checks st1 + k * (batchSizeOf opts + 1) \<longrightarrow> \<not> cancelAt opts cc (task st1) j"
    unfolding cancelAt_task[OF eq] using Suc.prems(2) by (simp add: c1 b_def)
  have ce: "checks st1 + k * (batchSizeOf opts + 1) = checks st + Suc k * (batchSizeOf opts + 1)"
    by (simp add: c1 b_def)
  have ca: "cancelAt opts cc (task st1) (checks st1 + k * (batchSizeOf opts + 1))"
    unfolding cancelAt_task[OF eq] ce using Suc.prems(3) .
  have n: "notCancelled (task st1)"
    using Suc.prems(4) by (simp add: t1 notCancelled_recordAll)
  have m: "(i + b) + k * batchSizeOf opts < length items"
    using Suc.prems(1) by (simp add: b_def add.assoc)
  note ih = Suc.IH[OF m q ca n]
  have d: "take (Suc k * batchSizeOf opts) (drop i items) = chunk @ take (k * batchSizeOf opts) (drop (i + b) items)"
    using take_chunks[OF il, of "k * b"] by (simp add: chunk_def b_def)
  have r: "results (chunkLoop opts cc w items i st) =
           (\<lambda>x. if x \<in> set (take (Suc k * batchSizeOf opts) (drop i items)) then Some (resultOf (w x))
                else results st x)"
    unfolding d by (auto simp add: s ih r1 fun_eq_iff)
  have t: "task (chunkLoop opts cc w items i st) =
           map_option (\<lambda>t. (if cc (checks st + Suc k * (batchSizeOf opts + 1)) then cancel else (\<lambda>t. t))
                              (recordAll (map (\<lambda>x. callOf (w x)) (take (Suc k * batchSizeOf opts) (drop i items))) t))
             (task st)"
    unfolding d s ih[THEN conjunct2] t1 ce by (cases "task st") (simp_all add: recordAll_append)
  show ?case using r t by simp
qed

lemma fst_callOf: "fst (callOf r) = (\<not> isl r)"
  by (cases r) simp_all

lemma counters_recordAll_worker:
  "processed (recordAll (map (\<lambda>x. callOf (w x)) xs) t) = processed t + length xs"
  "ok (recordAll (map (\<lambda>x. callOf (w x)) xs) t) = ok t + length (filter (\<lambda>x. \<not> isl (w x)) xs)"
  "fail (recordAll (map (\<lambda>x. callOf (w x)) xs) t) = fail t + length (filter (\<lambda>x. isl (w x)) xs)"
  by (simp_all add: recordAll_fields filter_map comp_def fst_callOf)

lemma counters_cancel:
  "processed (cancel t) = processed t" "ok (cancel t) = ok t" "fail (cancel t) = fail t"
  by (simp_all add: cancel_def)

lemma runBatch_all:
  fixes items :: "'t list" and w :: "'t \<Rightarrow> string + 'r" and tk :: "'v BatchTask option"
  assumes "\<forall>j. \<not> cancelAt opts cc tk j" and "notCancelled tk"
  shows "results (runBatch items w opts tk cc) =
           (\<lambda>x. if x \<in> set items then Some (resultOf (w x)) else None) \<and>
         task (runBatch items w opts tk cc) =
           map_option (recordAll (map (\<lambda>x. callOf (w x)) items)) tk"
  using chunkLoop_all[of opts cc "\<lparr>results = Map.empty, task = tk, checks = 0\<rparr> :: ('t, 'r, 'v) RunState" w items 0] assms
  by (auto simp add: runBatch_def fun_eq_iff)

lemma single_failure_counts:
  assumes "i < length items" and "isl (w (items ! i))"
      and "\<forall>j < length items. j \<noteq> i \<longrightarrow> \<not> isl (w (items ! j))"
  shows "length (filter (\<lambda>x. isl (w x)) items) = 1 \<and>
         length (filter (\<lambda>x. \<not> isl (w x)) items) = length items - 1"
proof -
  have "{j. j < length items \<and> isl (w (items ! j))} = {i}"
    using assms by auto
  then have 1: "length (filter (\<lambda>x. isl (w x)) items) = 1"
    by (simp add: length_filter_conv_card)
  moreover have "length (filter (\<lambda>x. isl (w x)) items) + length (filter (\<lambda>x. \<not> isl (w x)) items) = length items"
    by (rule sum_length_filter_compl)
  ultimately show ?thesis by simp
qed

lemmas run_eval = runBatch_def chunkLoop.simps checkCancel_def processChunk_def settleOne_def
  slice'_def batchSizeOf_def cancelledResult_def record'_def publish_def newBatchTask_def Let_def cancel_def

subsection \<open>Cancellation between chunks\<close>

text \<open>
  C1, as amended. Let \<open>b\<close> be the batch size and let the items fill more than \<open>k\<close>
  chunks. The first \<open>k\<close> chunks take \<open>k * (b + 1)\<close> evaluations of the cancellation
  condition (one before each chunk, one before each item). If none of them sees a
  cancellation and the next one, before chunk \<open>k + 1\<close>, does, then \<open>runBatch\<close> returns a
  map in which the items of chunks 1 to \<open>k\<close> have their real outcomes and no other item
  has an entry, and the counters of the task have grown by the items of chunks 1 to \<open>k\<close>
  only.
\<close>

theorem runBatch_cancel_after_chunk:
  fixes items :: "'t list" and w :: "'t \<Rightarrow> string + 'r" and tk :: "'v BatchTask option"
  assumes "k * batchSizeOf opts < length items"
      and "\<forall>j < k * (batchSizeOf opts + 1). \<not> cancelAt opts cc tk j"
      and "cancelAt opts cc tk (k * (batchSizeOf opts + 1))"
      and "notCancelled tk"
  shows "results (runBatch items w opts tk cc) =
           (\<lambda>x. if x \<in> set (take (k * batchSizeOf opts) items) then Some (resultOf (w x)) else None) \<and>
         map_option processed (task (runBatch items w opts tk cc)) =
           map_option (\<lambda>t. processed t + k * batchSizeOf opts) tk \<and>
         map_option ok (task (runBatch items w opts tk cc)) =
           map_option (\<lambda>t. ok t + length (filter (\<lambda>x. \<not> isl (w x)) (take (k * batchSizeOf opts) items))) tk \<and>
         map_option fail (task (runBatch items w opts tk cc)) =
           map_option (\<lambda>t. fail t + length (filter (\<lambda>x. isl (w x)) (take (k * batchSizeOf opts) items))) tk"
proof -
  let ?st = "\<lparr>results = Map.empty, task = tk, checks = 0\<rparr> :: ('t, 'r, 'v) RunState"
  have 1: "0 + k * batchSizeOf opts < length items" using assms(1) by simp
  have 2: "\<forall>j. checks ?st \<le> j \<and> j < checks ?st + k * (batchSizeOf opts + 1) \<longrightarrow> \<not> cancelAt opts cc (task ?st) j"
    using assms(2) by simp
  have 3: "cancelAt opts cc (task ?st) (checks ?st + k * (batchSizeOf opts + 1))"
    using assms(3) by simp
  have 4: "notCancelled (task ?st)" using assms(4) by simp
  note l = chunkLoop_cancel_after[OF 1 2 3 4, of w]
  have lt: "length (take (k * batchSizeOf opts) items) = k * batchSizeOf opts"
    using assms(1) by simp
  have r: "results (runBatch items w opts tk cc) =
           (\<lambda>x. if x \<in> set (take (k * batchSizeOf opts) items) then Some (resultOf (w x)) else None)"
    using l by (auto simp add: runBatch_def fun_eq_iff)
  have t: "task (runBatch items w opts tk cc) =
           map_option (\<lambda>t. (if cc (k * (batchSizeOf opts + 1)) then cancel else (\<lambda>t. t))
                              (recordAll (map (\<lambda>x. callOf (w x)) (take (k * batchSizeOf opts) items)) t)) tk"
    using l by (simp add: runBatch_def)
  show ?thesis
    unfolding t using r lt
    by (cases tk) (simp_all add: counters_recordAll_worker counters_cancel)
qed

theorem runBatch_cancel_after_chunk_witness:
  "results (runBatch [10 :: nat, 20, 30] (failOn 20)
      \<lparr>batchSize = Some 2, shouldCancel = Some (fromCheck 3)\<rparr>
      (Some (newBatchTask ''t'' 0 3 :: unit BatchTask)) noCancelCalls) =
     [10 \<mapsto> \<lparr>r_ok = True, r_data = Some 10, r_error = None, r_cancelled = None\<rparr>,
      20 \<mapsto> \<lparr>r_ok = False, r_data = None, r_error = Some ''boom'', r_cancelled = None\<rparr>] \<and>
   map_option processed (task (runBatch [10 :: nat, 20, 30] (failOn 20)
      \<lparr>batchSize = Some 2, shouldCancel = Some (fromCheck 3)\<rparr>
      (Some (newBatchTask ''t'' 0 3 :: unit BatchTask)) noCancelCalls)) = Some 2"
  using runBatch_cancel_after_chunk[of 1 "\<lparr>batchSize = Some 2, shouldCancel = Some (fromCheck 3)\<rparr>"
      "[10 :: nat, 20, 30]" noCancelCalls "Some (newBatchTask ''t'' 0 3 :: unit BatchTask)" "failOn 20"]
  by (auto simp add: batchSizeOf_def cancelAt_def notCancelled_def newBatchTask_def fun_eq_iff
        fromCheck_def noCancelCalls_def failOn_def)

text \<open>
  C1, as stated, fails: with two items in chunks of one and a predicate that turns true
  after the first chunk, the second item has no entry in the map, where the claim gives
  it the entry \<open>{ok: false, cancelled: true, error: "cancelled"}\<close>.
\<close>

theorem runBatch_cancel_cex:
  "results (runBatch [1 :: nat, 2] (failOn 0)
      \<lparr>batchSize = Some 1, shouldCancel = Some (fromCheck 2)\<rparr>
      (Some (newBatchTask ''t'' 0 2 :: unit BatchTask)) noCancelCalls) 1 =
     Some \<lparr>r_ok = True, r_data = Some 1, r_error = None, r_cancelled = None\<rparr> \<and>
   results (runBatch [1 :: nat, 2] (failOn 0)
      \<lparr>batchSize = Some 1, shouldCancel = Some (fromCheck 2)\<rparr>
      (Some (newBatchTask ''t'' 0 2 :: unit BatchTask)) noCancelCalls) 2 = None \<and>
   results (runBatch [1 :: nat, 2] (failOn 0)
      \<lparr>batchSize = Some 1, shouldCancel = Some (fromCheck 2)\<rparr>
      (Some (newBatchTask ''t'' 0 2 :: unit BatchTask)) noCancelCalls) 2 \<noteq> Some cancelledResult"
  by (simp add: run_eval fromCheck_def noCancelCalls_def failOn_def)

subsection \<open>One failing item\<close>

text \<open>
  C5, as amended. Let the items be pairwise distinct, let the worker reject for the item
  at index \<open>i\<close> with message \<open>e\<close> and resolve for every other item, and let no
  evaluation of the cancellation condition see a cancellation. Then the map has an entry
  for every item: \<open>{ok: false, error: e}\<close> for item \<open>i\<close> and \<open>{ok: true, data}\<close> with
  the worker's value for every other item, in the same chunk or a later one; that is
  \<open>N - 1\<close> successes and one failure; and the counters of the task have grown by \<open>N\<close>
  (\<open>processed\<close>), \<open>N - 1\<close> (\<open>ok\<close>) and 1 (\<open>fail\<close>).
\<close>

theorem runBatch_single_failure:
  fixes items :: "'t list" and w :: "'t \<Rightarrow> string + 'r" and tk :: "'v BatchTask option"
  assumes "distinct items"
      and "i < length items" and "w (items ! i) = Inl e"
      and "\<forall>j < length items. j \<noteq> i \<longrightarrow> \<not> isl (w (items ! j))"
      and "\<forall>j. \<not> cancelAt opts cc tk j" and "notCancelled tk"
  shows "results (runBatch items w opts tk cc) (items ! i) =
           Some \<lparr>r_ok = False, r_data = None, r_error = Some e, r_cancelled = None\<rparr> \<and>
         (\<forall>j < length items. j \<noteq> i \<longrightarrow>
            results (runBatch items w opts tk cc) (items ! j) =
              Some \<lparr>r_ok = True, r_data = Some (projr (w (items ! j))), r_error = None, r_cancelled = None\<rparr>) \<and>
         dom (results (runBatch items w opts tk cc)) = set items \<and>
         card {x. \<exists>r. results (runBatch items w opts tk cc) x = Some r \<and> r_ok r} = length items - 1 \<and>
         card {x. \<exists>r. results (runBatch items w opts tk cc) x = Some r \<and> \<not> r_ok r} = 1 \<and>
         map_option processed (task (runBatch items w opts tk cc)) = map_option (\<lambda>t. processed t + length items) tk \<and>
         map_option ok (task (runBatch items w opts tk cc)) = map_option (\<lambda>t. ok t + (length items - 1)) tk \<and>
         map_option fail (task (runBatch items w opts tk cc)) = map_option (\<lambda>t. fail t + 1) tk"
proof -
  let ?R = "runBatch items w opts tk cc"
  note ra = runBatch_all[OF assms(5,6), of items w]
  have r: "results ?R = (\<lambda>x. if x \<in> set items then Some (resultOf (w x)) else None)"
    using ra by simp
  have t: "task ?R = map_option (recordAll (map (\<lambda>x. callOf (w x)) items)) tk"
    using ra by simp
  have isl: "isl (w (items ! i))" using assms(3) by simp
  note cnt = single_failure_counts[OF assms(2) isl assms(4)]
  have 1: "results ?R (items ! i) = Some \<lparr>r_ok = False, r_data = None, r_error = Some e, r_cancelled = None\<rparr>"
    using assms(2,3) by (simp add: r)
  have 2: "results ?R (items ! j) =
              Some \<lparr>r_ok = True, r_data = Some (projr (w (items ! j))), r_error = None, r_cancelled = None\<rparr>"
    if "j < length items" "j \<noteq> i" for j
  proof -
    have "\<not> isl (w (items ! j))" using assms(4) that by simp
    then obtain d where "w (items ! j) = Inr d" by (cases "w (items ! j)") auto
    then show ?thesis using that by (simp add: r)
  qed
  have 3: "dom (results ?R) = set items"
    by (auto simp add: r split: if_splits)
  have rok: "r_ok (resultOf x) = (\<not> isl x)" for x :: "string + 'r"
    by (cases x) simp_all
  have oks: "{x. \<exists>r. results ?R x = Some r \<and> r_ok r} = set items - {items ! i}"
  proof -
    have "\<not> isl (w x)" if "x \<in> set items" "x \<noteq> items ! i" for x
      using that assms(4) by (metis in_set_conv_nth)
    then show ?thesis
      using isl by (auto simp add: r rok)
  qed
  have bad: "{x. \<exists>r. results ?R x = Some r \<and> \<not> r_ok r} = {items ! i}"
  proof -
    have "\<not> isl (w x)" if "x \<in> set items" "x \<noteq> items ! i" for x
      using that assms(4) by (metis in_set_conv_nth)
    then show ?thesis
      using isl assms(2) by (auto simp add: r rok)
  qed
  have 4: "card {x. \<exists>r. results ?R x = Some r \<and> r_ok r} = length items - 1"
    using assms(1,2) by (simp add: oks distinct_card)
  have 5: "card {x. \<exists>r. results ?R x = Some r \<and> \<not> r_ok r} = 1"
    by (simp add: bad)
  have 6: "map_option processed (task ?R) = map_option (\<lambda>t. processed t + length items) tk"
    "map_option ok (task ?R) = map_option (\<lambda>t. ok t + (length items - 1)) tk"
    "map_option fail (task ?R) = map_option (\<lambda>t. fail t + 1) tk"
    unfolding t using cnt by (cases tk; simp add: counters_recordAll_worker)+
  show ?thesis using 1 2 3 4 5 6 by simp
qed

theorem runBatch_single_failure_witness:
  "results (runBatch [''a'', ''b'', ''c''] (failOn ''b'')
      \<lparr>batchSize = Some 2, shouldCancel = None\<rparr>
      (Some (newBatchTask ''t'' 0 3 :: unit BatchTask)) noCancelCalls) ''b'' =
     Some \<lparr>r_ok = False, r_data = None, r_error = Some ''boom'', r_cancelled = None\<rparr> \<and>
   card {x. \<exists>r. results (runBatch [''a'', ''b'', ''c''] (failOn ''b'')
      \<lparr>batchSize = Some 2, shouldCancel = None\<rparr>
      (Some (newBatchTask ''t'' 0 3 :: unit BatchTask)) noCancelCalls) x = Some r \<and> r_ok r} = 2 \<and>
   map_option ok (task (runBatch [''a'', ''b'', ''c''] (failOn ''b'')
      \<lparr>batchSize = Some 2, shouldCancel = None\<rparr>
      (Some (newBatchTask ''t'' 0 3 :: unit BatchTask)) noCancelCalls)) = Some 2 \<and>
   map_option fail (task (runBatch [''a'', ''b'', ''c''] (failOn ''b'')
      \<lparr>batchSize = Some 2, shouldCancel = None\<rparr>
      (Some (newBatchTask ''t'' 0 3 :: unit BatchTask)) noCancelCalls)) = Some 1 \<and>
   map_option processed (task (runBatch [''a'', ''b'', ''c''] (failOn ''b'')
      \<lparr>batchSize = Some 2, shouldCancel = None\<rparr>
      (Some (newBatchTask ''t'' 0 3 :: unit BatchTask)) noCancelCalls)) = Some 3"
proof -
  let ?t = "Some (newBatchTask ''t'' 0 3 :: unit BatchTask)"
  have d: "distinct [''a'', ''b'', ''c'']" by simp
  have i: "(1 :: nat) < length [''a'', ''b'', ''c'']" by simp
  have e: "failOn ''b'' ([''a'', ''b'', ''c''] ! 1) = Inl ''boom''" by (simp add: failOn_def)
  have h: "\<forall>j<length [''a'', ''b'', ''c'']. j \<noteq> 1 \<longrightarrow> \<not> isl (failOn ''b'' ([''a'', ''b'', ''c''] ! j))"
    by (simp add: nth_Cons' less_Suc_eq numeral_3_eq_3 failOn_def)
  have q: "\<forall>j. \<not> cancelAt \<lparr>batchSize = Some 2, shouldCancel = None\<rparr> noCancelCalls ?t j"
    by (simp add: cancelAt_def noCancelCalls_def)
  have n: "notCancelled ?t"
    by (simp add: notCancelled_def newBatchTask_def)
  show ?thesis
    using runBatch_single_failure[OF d i e h q n]
    by (simp add: newBatchTask_def numeral_2_eq_2 numeral_3_eq_3)
qed

text \<open>
  C5, as stated, fails when an item occurs twice: the map is keyed by the item, so three
  items of which two are equal give two entries, one failure and one success, not two
  successes.
\<close>

theorem runBatch_single_failure_cex:
  "results (runBatch [''a'', ''b'', ''b''] (failOn ''a'')
      \<lparr>batchSize = None, shouldCancel = None\<rparr>
      (Some (newBatchTask ''t'' 0 3 :: unit BatchTask)) noCancelCalls) =
     [''a'' \<mapsto> \<lparr>r_ok = False, r_data = None, r_error = Some ''boom'', r_cancelled = None\<rparr>,
      ''b'' \<mapsto> \<lparr>r_ok = True, r_data = Some ''b'', r_error = None, r_cancelled = None\<rparr>] \<and>
   dom (results (runBatch [''a'', ''b'', ''b''] (failOn ''a'')
      \<lparr>batchSize = None, shouldCancel = None\<rparr>
      (Some (newBatchTask ''t'' 0 3 :: unit BatchTask)) noCancelCalls)) = {''a'', ''b''}"
proof -
  have "results (runBatch [''a'', ''b'', ''b''] (failOn ''a'')
      \<lparr>batchSize = None, shouldCancel = None\<rparr>
      (Some (newBatchTask ''t'' 0 3 :: unit BatchTask)) noCancelCalls) =
     [''a'' \<mapsto> \<lparr>r_ok = False, r_data = None, r_error = Some ''boom'', r_cancelled = None\<rparr>,
      ''b'' \<mapsto> \<lparr>r_ok = True, r_data = Some ''b'', r_error = None, r_cancelled = None\<rparr>]"
    by (simp add: run_eval fun_eq_iff noCancelCalls_def failOn_def)
  then show ?thesis by auto
qed

section \<open>Properties of the event stream\<close>

lemma sendEvent_open:
  "\<not> closed st \<Longrightarrow> sendEvent json e st = st\<lparr>enqueued := enqueued st @ lineOf json e\<rparr>"
  by (cases "json e") (simp_all add: sendEvent_def lineOf_def sseLine_def)

lemma linesOf_simps:
  "linesOf json [] = []"
  "linesOf json (e # es) = lineOf json e @ linesOf json es"
  "linesOf json (xs @ ys) = linesOf json xs @ linesOf json ys"
  by (simp_all add: linesOf_def)

lemma queueOf_setQueue: "queueOf h (setQueue h q t) = []" if "q = []"
proof -
  have "(case map_of (map (\<lambda>(i, q'). if i = h then (i, []) else (i, q')) xs) h of None \<Rightarrow> [] | Some q \<Rightarrow> q) = []"
    for xs :: "(nat \<times> 'a BatchEvent list) list"
    by (induction xs) auto
  then show ?thesis using that by (simp add: queueOf_def setQueue_def)
qed

lemma set_removeFirst: "set (removeFirst h xs) \<subseteq> set xs"
  by (induction xs) auto

lemma map_fst_removeFirst:
  "distinct (map fst xs) \<Longrightarrow> distinct (map fst (removeFirst h xs)) \<and> h \<notin> fst ` set (removeFirst h xs)"
proof (induction xs)
  case Nil
  then show ?case by simp
next
  case (Cons x xs)
  then show ?case using set_removeFirst[of h xs] by (auto simp add: image_iff)
qed

lemma queueOf_absent: "h \<notin> fst ` set (queues t) \<Longrightarrow> queueOf h t = []"
  by (simp add: queueOf_def map_of_eq_None_iff[THEN iffD2])

lemma drain_open:
  assumes "\<not> closed st"
  shows "enqueued (drain json q st) = enqueued st @ linesOf json (upToFinal q) \<and>
         closed (drain json q st) = (\<exists>e \<in> set q. isFinal e) \<and>
         polling (drain json q st) = (polling st \<and> \<not> (\<exists>e \<in> set q. isFinal e)) \<and>
         s_handle (drain json q st) = s_handle st \<and>
         s_task (drain json q st) =
           (if \<exists>e \<in> set q. isFinal e then detach (s_handle st) (s_task st)
            else setQueue (s_handle st) [] (s_task st))"
  using assms
proof (induction q arbitrary: st)
  case Nil
  then show ?case by (simp add: linesOf_simps)
next
  case (Cons e q)
  let ?st1 = "st\<lparr>enqueued := enqueued st @ lineOf json e\<rparr>"
  have s: "sendEvent json e st = ?st1"
    using Cons.prems by (simp add: sendEvent_open)
  show ?case
  proof (cases "isFinal e")
    case True
    then show ?thesis by (simp add: s Let_def linesOf_simps)
  next
    case False
    have "\<not> closed ?st1" using Cons.prems by simp
    from Cons.IH[OF this] False show ?thesis
      by (simp add: s Let_def linesOf_simps)
  qed
qed

lemma upToFinal_butlast: "list_all (\<lambda>e. \<not> isFinal e) (butlast (upToFinal q))"
  by (induction q) auto

lemma upToFinal_last: "(upToFinal q \<noteq> [] \<and> isFinal (last (upToFinal q))) = (\<exists>e \<in> set q. isFinal e)"
  by (induction q) auto

lemma upToFinal_none: "list_all (\<lambda>e. \<not> isFinal e) q \<Longrightarrow> upToFinal q = q"
  by (induction q) auto

lemma list_all_butlast: "list_all P xs \<Longrightarrow> list_all P (butlast xs)"
  by (induction xs) auto

lemma count_final:
  assumes "list_all (\<lambda>e. \<not> isFinal e) (butlast evs)"
  shows "length (filter isFinal evs) = (if evs \<noteq> [] \<and> isFinal (last evs) then 1 else 0)"
proof (cases evs rule: rev_cases)
  case Nil
  then show ?thesis by simp
next
  case (snoc ys y)
  then have "filter isFinal ys = []"
    using assms by (simp add: list_all_iff filter_empty_conv)
  then show ?thesis using snoc by simp
qed

text \<open>How the queue of an attached handle changes.\<close>

lemma map_of_map_queue:
  "map_of (map (\<lambda>(h, q). (h, f q)) xs) k = map_option f (map_of xs k)"
  by (induction xs) auto

lemma queueOf_publish:
  assumes "h \<in> fst ` set (queues t)"
  shows "queueOf h (publish e t) = push (queueOf h t) e"
proof -
  obtain q where "map_of (queues t) h = Some q"
    using assms by (metis map_of_eq_None_iff not_Some_eq)
  then show ?thesis
    by (simp add: queueOf_def publish_def map_of_map_queue)
qed

lemma queueOf_frame:
  assumes "queues t' = queues t"
  shows "queueOf h t' = queueOf h t"
  using assms by (simp add: queueOf_def)

lemma map_of_removeFirst: "h \<noteq> k \<Longrightarrow> map_of (removeFirst k xs) h = map_of xs h"
  by (induction xs) auto

lemma fst_removeFirst_other: "h \<noteq> k \<Longrightarrow> (h \<in> fst ` set (removeFirst k xs)) = (h \<in> fst ` set xs)"
  by (induction xs) auto

lemma queueOf_detach_other: "h \<noteq> k \<Longrightarrow> queueOf h (detach k t) = queueOf h t"
  by (simp add: queueOf_def detach_def map_of_removeFirst)

lemma queueOf_attach:
  assumes "h \<in> fst ` set (queues t)"
  shows "queueOf h (snd (attach t)) = queueOf h t"
proof -
  obtain q where "map_of (queues t) h = Some q"
    using assms by (metis map_of_eq_None_iff not_Some_eq)
  then show ?thesis
    by (simp add: queueOf_def attach_def Let_def map_add_Some_iff)
qed

lemma handlesOk_publish: "handlesOk (publish e t) = handlesOk t"
  by (simp add: handlesOk_def publish_def comp_def case_prod_unfold list_all_iff)

lemma fst_queues_publish: "fst ` set (queues (publish e t)) = fst ` set (queues t)"
  by (force simp add: publish_def)

lemma nextHandle_publish: "nextHandle (publish e t) = nextHandle t"
  by (simp add: publish_def)

lemma handlesOk_setQueue: "handlesOk (setQueue h q t) = handlesOk t"
proof -
  have f: "fst \<circ> (\<lambda>(i, q'). if i = h then (i, q) else (i, q')) = (fst :: nat \<times> 'a BatchEvent list \<Rightarrow> nat)"
    by (auto simp add: fun_eq_iff)
  have "map fst (queues (setQueue h q t)) = map fst (queues t)"
    by (simp add: setQueue_def f)
  moreover have "list_all (\<lambda>p. fst p < n) xs = (\<forall>i \<in> set (map fst xs). i < n)" for n and xs :: "(nat \<times> 'a BatchEvent list) list"
    by (auto simp add: list_all_iff)
  moreover have "nextHandle (setQueue h q t) = nextHandle t"
    by (simp add: setQueue_def)
  ultimately show ?thesis
    by (simp only: handlesOk_def)
qed

lemma handlesOk_detach: "handlesOk t \<Longrightarrow> handlesOk (detach h t) \<and> h \<notin> fst ` set (queues (detach h t))"
  using map_fst_removeFirst[of "queues t" h] set_removeFirst[of h "queues t"]
  by (auto simp add: handlesOk_def detach_def list_all_iff)

lemma fst_queues_detach: "fst ` set (queues (detach h t)) \<subseteq> fst ` set (queues t)"
  using set_removeFirst[of h "queues t"] by (auto simp add: detach_def)

lemma handlesOk_attach: "handlesOk t \<Longrightarrow> handlesOk (snd (attach t))"
  by (auto simp add: handlesOk_def attach_def Let_def list_all_iff)

lemma publish_frame:
  assumes "queues t' = queues t" and "nextHandle t' = nextHandle t"
  shows "handlesOk (publish e t') = handlesOk t \<and>
         fst ` set (queues (publish e t')) = fst ` set (queues t) \<and>
         nextHandle (publish e t') = nextHandle t"
proof -
  have "handlesOk t' = handlesOk t"
    using assms by (simp add: handlesOk_def)
  then show ?thesis
    using assms by (simp add: handlesOk_publish fst_queues_publish nextHandle_publish)
qed

lemma record'_frame:
  "handlesOk (record' s opts t) = handlesOk t \<and>
   fst ` set (queues (record' s opts t)) = fst ` set (queues t) \<and>
   nextHandle (record' s opts t) = nextHandle t"
  unfolding record'_def Let_def by (rule publish_frame) simp_all

lemma finish_frame:
  "handlesOk (finish res warn t) = handlesOk t \<and>
   fst ` set (queues (finish res warn t)) = fst ` set (queues t) \<and>
   nextHandle (finish res warn t) = nextHandle t"
  unfolding finish_def Let_def by (rule publish_frame) simp_all

lemma failTask_frame:
  "handlesOk (failTask err t) = handlesOk t \<and>
   fst ` set (queues (failTask err t)) = fst ` set (queues t) \<and>
   nextHandle (failTask err t) = nextHandle t"
  unfolding failTask_def Let_def by (rule publish_frame) simp_all

lemma finishCancelled_frame:
  "handlesOk (finishCancelled t) = handlesOk t \<and>
   fst ` set (queues (finishCancelled t)) = fst ` set (queues t) \<and>
   nextHandle (finishCancelled t) = nextHandle t"
  unfolding finishCancelled_def Let_def by (rule publish_frame) simp_all

lemma handlesOk_new: "handlesOk (newBatchTask uuid now n)"
  by (simp add: handlesOk_def newBatchTask_def)

lemma step_task_inv:
  assumes "streamInv json snap evs st"
      and "enqueued st' = enqueued st" "closed st' = closed st" "polling st' = polling st"
          "s_handle st' = s_handle st"
      and "nextHandle (s_task st) \<le> nextHandle (s_task st')"
      and "handlesOk (s_task st')"
      and "(s_handle st \<in> fst ` set (queues (s_task st'))) = (s_handle st \<in> fst ` set (queues (s_task st)))"
  shows "streamInv json snap evs st'"
  using assms unfolding streamInv_def by auto

lemma tick_inv:
  assumes "streamInv json snap evs st" and "\<not> closed st"
  shows "streamInv json snap (evs @ upToFinal (queueOf (s_handle st) (s_task st))) (tick json st)"
proof -
  let ?q = "queueOf (s_handle st) (s_task st)"
  let ?st' = "drain json ?q st"
  have pol: "polling st"
    using assms by (simp add: streamInv_def)
  have nf: "list_all (\<lambda>e. \<not> isFinal e) evs"
    using assms by (cases evs rule: rev_cases) (auto simp add: streamInv_def)
  note d = drain_open[OF assms(2), of json ?q]
  have t: "tick json st = ?st'" using pol by (simp add: tick_def)
  have hk: "handlesOk (s_task st)" and hl: "s_handle st < nextHandle (s_task st)"
    and att: "s_handle st \<in> fst ` set (queues (s_task st))"
    using assms by (simp_all add: streamInv_def)
  have 1: "list_all (\<lambda>e. \<not> isFinal e) (butlast (evs @ upToFinal ?q))"
    using nf upToFinal_butlast[of ?q] list_all_butlast[OF nf] by (simp add: butlast_append)
  have 2: "(evs @ upToFinal ?q \<noteq> [] \<and> isFinal (last (evs @ upToFinal ?q))) = (\<exists>e \<in> set ?q. isFinal e)"
  proof (cases "upToFinal ?q = []")
    case True
    then show ?thesis using upToFinal_last[of ?q] assms by (simp add: streamInv_def)
  next
    case False
    then show ?thesis using upToFinal_last[of ?q] by simp
  qed
  have e: "enqueued ?st' = linesOf json (snap # evs @ upToFinal ?q)"
    using d assms(1) by (simp add: streamInv_def linesOf_simps)
  have c: "closed ?st' = (evs @ upToFinal ?q \<noteq> [] \<and> isFinal (last (evs @ upToFinal ?q)))"
    using d 2 by simp
  have p: "polling ?st' = (\<not> closed ?st')"
    using d pol by simp
  have h: "s_handle ?st' = s_handle st"
    using d by simp
  have tk: "handlesOk (s_task ?st') \<and> nextHandle (s_task ?st') = nextHandle (s_task st) \<and>
            closed ?st' = (s_handle st \<notin> fst ` set (queues (s_task ?st')))"
  proof (cases "\<exists>e \<in> set ?q. isFinal e")
    case True
    then have "s_task ?st' = detach (s_handle st) (s_task st)" and "closed ?st'"
      using d by simp_all
    then show ?thesis
      using handlesOk_detach[OF hk, of "s_handle st"] by (simp add: detach_def)
  next
    case False
    then have s: "s_task ?st' = setQueue (s_handle st) [] (s_task st)" and "\<not> closed ?st'"
      using d by simp_all
    have "fst ` set (queues (setQueue (s_handle st) [] (s_task st))) = fst ` set (queues (s_task st))"
      by (force simp add: setQueue_def)
    then show ?thesis
      using hk att s \<open>\<not> closed ?st'\<close> by (simp add: handlesOk_setQueue) (simp add: setQueue_def)
  qed
  show ?thesis
    unfolding streamInv_def t
    using e 1 c p h tk hl by simp
qed

lemma step_inv:
  assumes "streamInv json snap evs st"
  shows "\<exists>evs'. streamInv json snap evs' (step json a st)"
proof (cases a)
  case Tick
  show ?thesis
  proof (cases "closed st")
    case True
    then have "tick json st = st" using assms by (simp add: tick_def streamInv_def)
    then show ?thesis using assms Tick by auto
  next
    case False
    then show ?thesis using tick_inv[OF assms False] Tick by auto
  qed
next
  case (Record s opts)
  have "streamInv json snap evs (step json a st)"
    using assms Record record'_frame[of s opts "s_task st"]
    by (intro step_task_inv[OF assms]) (simp_all add: streamInv_def)
  then show ?thesis by auto
next
  case (Finish res warn)
  have "streamInv json snap evs (step json a st)"
    using assms Finish finish_frame[of res warn "s_task st"]
    by (intro step_task_inv[OF assms]) (simp_all add: streamInv_def)
  then show ?thesis by auto
next
  case (FailTask err)
  have "streamInv json snap evs (step json a st)"
    using assms FailTask failTask_frame[of err "s_task st"]
    by (intro step_task_inv[OF assms]) (simp_all add: streamInv_def)
  then show ?thesis by auto
next
  case FinishCancelled
  have "streamInv json snap evs (step json a st)"
    using assms FinishCancelled finishCancelled_frame[of "s_task st"]
    by (intro step_task_inv[OF assms]) (simp_all add: streamInv_def)
  then show ?thesis by auto
next
  case Cancel
  have "streamInv json snap evs (step json a st)"
    using assms Cancel
    by (intro step_task_inv[OF assms]) (simp_all add: cancel_def streamInv_def handlesOk_def)
  then show ?thesis by auto
next
  case Attach
  have "streamInv json snap evs (step json a st)"
    using assms Attach handlesOk_attach[of "s_task st"]
    by (intro step_task_inv[OF assms]) (auto simp add: attach_def Let_def streamInv_def)
  then show ?thesis by auto
next
  case (Detach k)
  show ?thesis
  proof (cases "k = s_handle st")
    case True
    then show ?thesis using assms Detach by auto
  next
    case False
    have "streamInv json snap evs (step json a st)"
      using assms Detach False handlesOk_detach[of "s_task st" k]
        fst_removeFirst_other[of "s_handle st" k "queues (s_task st)"]
      by (intro step_task_inv[OF assms]) (auto simp add: streamInv_def detach_def)
    then show ?thesis by auto
  qed
qed

lemma run_inv:
  assumes "streamInv json snap evs st"
  shows "\<exists>evs'. streamInv json snap evs' (run json as st)"
  using assms
proof (induction as arbitrary: evs st)
  case Nil
  then show ?case by auto
next
  case (Cons a as)
  from step_inv[OF Cons.prems, of a] obtain evs1 where "streamInv json snap evs1 (step json a st)" by blast
  from Cons.IH[OF this] show ?case by simp
qed

lemma start_inv:
  assumes "handlesOk t"
  shows "streamInv json (snapshotEvent t) [] (start json t)"
  using assms
  by (cases "json (snapshotEvent t)")
     (auto simp add: streamInv_def start_def attach_def Let_def sendEvent_def snapshotEvent_def
        sseLine_def handlesOk_def list_all_iff linesOf_def lineOf_def)

lemma run_not_polling:
  "\<not> polling st \<Longrightarrow> enqueued (run json as st) = enqueued st \<and> closed (run json as st) = closed st \<and>
     \<not> polling (run json as st)"
proof (induction as arbitrary: st)
  case Nil
  then show ?case by simp
next
  case (Cons a as)
  have "enqueued (step json a st) = enqueued st \<and> closed (step json a st) = closed st \<and> \<not> polling (step json a st)"
    using Cons.prems by (cases a) (simp_all add: tick_def)
  then show ?case using Cons.IH[of "step json a st"] by simp
qed

text \<open>What a call on the task does to an open stream.\<close>

lemma step_effect:
  assumes "s_handle st \<in> fst ` set (queues (s_task st))" and "a \<noteq> Tick"
  shows "enqueued (step json a st) = enqueued st \<and> closed (step json a st) = closed st \<and>
         polling (step json a st) = polling st \<and> s_handle (step json a st) = s_handle st \<and>
         queueOf (s_handle st) (s_task (step json a st)) =
           foldl push (queueOf (s_handle st) (s_task st)) (broadcastOf a (s_task st))"
proof (cases a)
  case Tick
  then show ?thesis using assms(2) by simp
next
  case (Record s opts)
  let ?t2 = "if s then (s_task st)\<lparr>processed := processed (s_task st) + 1, ok := ok (s_task st) + 1\<rparr>
             else (s_task st)\<lparr>processed := processed (s_task st) + 1, fail := fail (s_task st) + 1\<rparr>"
  have q: "queues ?t2 = queues (s_task st)" by simp
  have att: "s_handle st \<in> fst ` set (queues ?t2)" using assms(1) by simp
  show ?thesis
    using queueOf_publish[OF att] queueOf_frame[OF q, of "s_handle st"] Record
    by (auto simp add: record'_def Let_def)
next
  case (Finish res warn)
  let ?t1 = "(s_task st)\<lparr>status := Done, result := Some res, warning := warn,
      finalEvent := Some (DoneEvent (id' (s_task st)) (total (s_task st)) (processed (s_task st))
        (ok (s_task st)) (fail (s_task st)) warn res)\<rparr>"
  have q: "queues ?t1 = queues (s_task st)" by simp
  have att: "s_handle st \<in> fst ` set (queues ?t1)" using assms(1) by simp
  show ?thesis
    using queueOf_publish[OF att] queueOf_frame[OF q, of "s_handle st"] Finish
    by (simp add: finish_def Let_def)
next
  case (FailTask err)
  let ?t1 = "(s_task st)\<lparr>status := Error, error := Some err,
      finalEvent := Some (ErrorEvent (id' (s_task st)) (total (s_task st)) (processed (s_task st))
        (ok (s_task st)) (fail (s_task st)) err)\<rparr>"
  have q: "queues ?t1 = queues (s_task st)" by simp
  have att: "s_handle st \<in> fst ` set (queues ?t1)" using assms(1) by simp
  show ?thesis
    using queueOf_publish[OF att] queueOf_frame[OF q, of "s_handle st"] FailTask
    by (simp add: failTask_def Let_def)
next
  case FinishCancelled
  let ?t1 = "(s_task st)\<lparr>status := Cancelled,
      finalEvent := Some (CancelledEvent (id' (s_task st)) (total (s_task st)) (processed (s_task st))
        (ok (s_task st)) (fail (s_task st)))\<rparr>"
  have q: "queues ?t1 = queues (s_task st)" by simp
  have att: "s_handle st \<in> fst ` set (queues ?t1)" using assms(1) by simp
  show ?thesis
    using queueOf_publish[OF att] queueOf_frame[OF q, of "s_handle st"] FinishCancelled
    by (simp add: finishCancelled_def Let_def)
next
  case Cancel
  then show ?thesis by (simp add: cancel_def queueOf_def)
next
  case Attach
  then show ?thesis using queueOf_attach[OF assms(1)] by simp
next
  case (Detach k)
  then show ?thesis by (simp add: queueOf_detach_other)
qed

lemmas stream_eval = start_def attach_def sendEvent_def tick_def queueOf_def setQueue_def detach_def
  record'_def finish_def publish_def push_def newBatchTask_def sseLine_def snapshotEvent_def Let_def

text \<open>
  C8, as amended. The stream starts open, with an empty queue and, as all it has
  enqueued, the line of the progress snapshot of the task's counters at attach time. After any sequence \<open>as\<close> of interval
  firings and calls on the task, what was enqueued is the lines of the snapshot and of
  the events \<open>evs\<close> taken from the queue (an event on which \<open>JSON.stringify\<close> throws
  has no line); none of them but the last is final, so at most one is, and the stream is
  closed exactly when the last one is final. It polls exactly while it is open and its
  handle is attached exactly while it is open; once closed nothing more is enqueued,
  whatever happens next (\<open>bs\<close>). While it is open, one firing of the interval sends
  the events of the queue in queue order up to and including the first final one, leaves
  the queue empty, and closes the stream exactly when the queue held a final event; any
  other call \<open>a\<close> enqueues nothing and pushes the event it broadcasts on the queue,
  which drops it when it holds 200 events. So a final event reaches the stream only
  through its queue: one that was broadcast before the stream attached, or dropped by a
  full queue, leaves the stream open with no final event.
\<close>

theorem stream_lifecycle:
  assumes "handlesOk t"
  shows "(let st0 = start json t; st = run json as st0; h = s_handle st; q = queueOf h (s_task st) in
          enqueued st0 = lineOf json (snapshotEvent t) \<and> \<not> closed st0 \<and>
          queueOf (s_handle st0) (s_task st0) = [] \<and>
          (\<exists>evs. enqueued st = linesOf json (snapshotEvent t # evs) \<and>
                 list_all (\<lambda>e. \<not> isFinal e) (butlast evs) \<and>
                 closed st = (evs \<noteq> [] \<and> isFinal (last evs)) \<and>
                 length (filter isFinal evs) = (if closed st then 1 else 0)) \<and>
          polling st = (\<not> closed st) \<and>
          closed st = (h \<notin> fst ` set (queues (s_task st))) \<and>
          (closed st \<longrightarrow> enqueued (run json bs st) = enqueued st \<and> closed (run json bs st)) \<and>
          (\<not> closed st \<longrightarrow>
             enqueued (tick json st) = enqueued st @ linesOf json (upToFinal q) \<and>
             closed (tick json st) = (\<exists>e \<in> set q. isFinal e) \<and>
             queueOf h (s_task (tick json st)) = [] \<and>
             (a \<noteq> Tick \<longrightarrow>
                enqueued (step json a st) = enqueued st \<and> \<not> closed (step json a st) \<and>
                queueOf h (s_task (step json a st)) = foldl push q (broadcastOf a (s_task st)))))"
proof -
  define st0 where "st0 = start json t"
  define st where "st = run json as st0"
  define h where "h = s_handle st"
  define q where "q = queueOf h (s_task st)"
  have s0: "streamInv json (snapshotEvent t) [] st0"
    unfolding st0_def using start_inv[OF assms] .
  from run_inv[OF s0, of as] obtain evs where inv: "streamInv json (snapshotEvent t) evs st"
    unfolding st_def by blast
  have 1: "enqueued st0 = lineOf json (snapshotEvent t) \<and> \<not> closed st0"
    using s0 by (simp add: streamInv_def linesOf_simps)
  have fresh: "map_of (queues t) (nextHandle t) = None"
    using assms by (force simp add: handlesOk_def list_all_iff map_of_eq_None_iff)
  have "s_task st0 = snd (attach t) \<and> s_handle st0 = nextHandle t"
    by (simp add: st0_def start_def attach_def Let_def sendEvent_open)
  then have q0: "queueOf (s_handle st0) (s_task st0) = []"
    using fresh by (simp add: queueOf_def attach_def Let_def map_add_def)
  have cnt: "length (filter isFinal evs) = (if closed st then 1 else 0)"
    using inv count_final[of evs] unfolding streamInv_def by presburger
  have 2: "\<exists>evs. enqueued st = linesOf json (snapshotEvent t # evs) \<and>
                 list_all (\<lambda>e. \<not> isFinal e) (butlast evs) \<and>
                 closed st = (evs \<noteq> [] \<and> isFinal (last evs)) \<and>
                 length (filter isFinal evs) = (if closed st then 1 else 0)"
    using inv cnt unfolding streamInv_def by blast
  have 3: "polling st = (\<not> closed st)" and 4: "closed st = (h \<notin> fst ` set (queues (s_task st)))"
    using inv unfolding streamInv_def h_def by blast+
  have 5: "enqueued (run json bs st) = enqueued st \<and> closed (run json bs st)" if "closed st"
    using 3 that run_not_polling[of st json bs] by simp
  have 6: "enqueued (tick json st) = enqueued st @ linesOf json (upToFinal q) \<and>
           closed (tick json st) = (\<exists>e \<in> set q. isFinal e) \<and>
           queueOf h (s_task (tick json st)) = []" if "\<not> closed st"
  proof -
    note d = drain_open[OF that, of json q]
    have t: "tick json st = drain json q st"
      using 3 that by (simp add: tick_def q_def h_def)
    have hk: "handlesOk (s_task st)" using inv by (simp add: streamInv_def)
    have "queueOf h (s_task (drain json q st)) = []"
    proof (cases "\<exists>e \<in> set q. isFinal e")
      case True
      then have "s_task (drain json q st) = detach h (s_task st)"
        using d by (simp add: h_def)
      then show ?thesis
        using handlesOk_detach[OF hk, of h] by (simp add: queueOf_absent)
    next
      case False
      then have "s_task (drain json q st) = setQueue h [] (s_task st)"
        using d by (simp add: h_def)
      then show ?thesis by (simp add: queueOf_setQueue)
    qed
    then show ?thesis using d t by simp
  qed
  have 7: "enqueued (step json a st) = enqueued st \<and> \<not> closed (step json a st) \<and>
           queueOf h (s_task (step json a st)) = foldl push q (broadcastOf a (s_task st))"
    if "\<not> closed st" "a \<noteq> Tick"
    using step_effect[of st a json] that 4 by (simp add: h_def q_def)
  show ?thesis
    unfolding Let_def
    using 1 q0 2 3 4 5 6 7
    unfolding st0_def st_def h_def q_def by blast
qed

theorem stream_lifecycle_witness:
  "enqueued (run tagJson [Record True None, Tick, Finish () None, Record False None, Tick, Tick]
      (start tagJson (newBatchTask ''t'' 0 2 :: unit BatchTask))) =
     [sseLine ''P'', sseLine ''P'', sseLine ''F''] \<and>
   closed (run tagJson [Record True None, Tick, Finish () None, Record False None, Tick, Tick]
      (start tagJson (newBatchTask ''t'' 0 2 :: unit BatchTask))) \<and>
   \<not> polling (run tagJson [Record True None, Tick, Finish () None, Record False None, Tick, Tick]
      (start tagJson (newBatchTask ''t'' 0 2 :: unit BatchTask)))"
proof -
  let ?st = "run tagJson [Record True None, Tick, Finish () None, Record False None, Tick, Tick]
      (start tagJson (newBatchTask ''t'' 0 2 :: unit BatchTask))"
  have h: "handlesOk (newBatchTask ''t'' 0 2 :: unit BatchTask)"
    by (rule handlesOk_new)
  have e: "enqueued ?st = [sseLine ''P'', sseLine ''P'', sseLine ''F'']" and c: "closed ?st"
    by (simp_all add: stream_eval tagJson_def)
  have p: "polling ?st = (\<not> closed ?st)"
    using stream_lifecycle[OF h, of tagJson
        "[Record True None, Tick, Finish () None, Record False None, Tick, Tick]" "[]" Cancel]
    unfolding Let_def by (elim conjE)
  show ?thesis using e c p by simp
qed

lemma run_append: "run json (xs @ ys) st = run json ys (run json xs st)"
  by (induction xs arbitrary: st) simp_all

lemma length_push: "length q \<le> 200 \<Longrightarrow> length (push q e) = min 200 (length q + 1)"
  by (simp add: push_def)

lemma run_records:
  assumes "s_handle st \<in> fst ` set (queues (s_task st))"
      and "length (queueOf (s_handle st) (s_task st)) \<le> 200"
      and "list_all (\<lambda>e. \<not> isFinal e) (queueOf (s_handle st) (s_task st))"
  shows "enqueued (run json (replicate n (Record s opts)) st) = enqueued st \<and>
         closed (run json (replicate n (Record s opts)) st) = closed st \<and>
         polling (run json (replicate n (Record s opts)) st) = polling st \<and>
         s_handle (run json (replicate n (Record s opts)) st) = s_handle st \<and>
         status (s_task (run json (replicate n (Record s opts)) st)) = status (s_task st) \<and>
         s_handle st \<in> fst ` set (queues (s_task (run json (replicate n (Record s opts)) st))) \<and>
         length (queueOf (s_handle st) (s_task (run json (replicate n (Record s opts)) st))) =
           min 200 (length (queueOf (s_handle st) (s_task st)) + n) \<and>
         list_all (\<lambda>e. \<not> isFinal e) (queueOf (s_handle st) (s_task (run json (replicate n (Record s opts)) st)))"
  using assms
proof (induction n arbitrary: st)
  case 0
  then show ?case by simp
next
  case (Suc n)
  let ?st1 = "step json (Record s opts) st"
  let ?q = "queueOf (s_handle st) (s_task st)"
  note ef = step_effect[OF Suc.prems(1), of "Record s opts" json]
  have h1: "s_handle ?st1 = s_handle st" using ef by simp
  have q1: "queueOf (s_handle st) (s_task ?st1) = push ?q (hd (broadcastOf (Record s opts) (s_task st)))"
    using ef by simp
  have a1: "s_handle ?st1 \<in> fst ` set (queues (s_task ?st1))"
    using Suc.prems(1) record'_frame[of s opts "s_task st"] by simp
  have l1: "length (queueOf (s_handle ?st1) (s_task ?st1)) \<le> 200"
    unfolding h1 q1 using Suc.prems(2) by (simp add: length_push)
  have n1: "list_all (\<lambda>e. \<not> isFinal e) (queueOf (s_handle ?st1) (s_task ?st1))"
    unfolding h1 q1 using Suc.prems(3) by (simp add: push_def)
  have s1: "status (s_task ?st1) = status (s_task st)"
    by (simp add: record'_fields)
  have len: "min 200 (length (queueOf (s_handle st) (s_task ?st1)) + n) = min 200 (length ?q + Suc n)"
    unfolding q1 using Suc.prems(2) by (simp add: length_push)
  show ?case
    using Suc.IH[OF a1 l1 n1] ef s1 len by (simp add: h1)
qed

lemma linesOf_tagJson:
  "list_all (\<lambda>e. \<not> isFinal e) q \<Longrightarrow> linesOf tagJson q = replicate (length q) (sseLine ''P'')"
  by (induction q) (simp_all add: linesOf_simps lineOf_def tagJson_def)

text \<open>
  C8, as stated, fails: the stream does not always carry a terminal event. After 200
  progress events that no firing of the interval has taken, \<open>finish\<close> finds the queue
  full and its event is dropped; the task is done, and the stream has sent the snapshot
  and the 200 progress events and stays open and polling. A stream started on a task
  that is already finished sends its snapshot and stays open and polling as well.
\<close>

theorem stream_lifecycle_cex:
  "enqueued (run tagJson (replicate 200 (Record True None) @ [Finish () None, Tick, Tick])
      (start tagJson (newBatchTask ''t'' 0 200 :: unit BatchTask))) = replicate 201 (sseLine ''P'') \<and>
   status (s_task (run tagJson (replicate 200 (Record True None) @ [Finish () None, Tick, Tick])
      (start tagJson (newBatchTask ''t'' 0 200 :: unit BatchTask)))) = Done \<and>
   \<not> closed (run tagJson (replicate 200 (Record True None) @ [Finish () None, Tick, Tick])
      (start tagJson (newBatchTask ''t'' 0 200 :: unit BatchTask))) \<and>
   polling (run tagJson (replicate 200 (Record True None) @ [Finish () None, Tick, Tick])
      (start tagJson (newBatchTask ''t'' 0 200 :: unit BatchTask))) \<and>
   enqueued (run tagJson [Tick, Tick]
      (start tagJson (finish () None (newBatchTask ''t'' 0 0 :: unit BatchTask)))) = [sseLine ''P''] \<and>
   \<not> closed (run tagJson [Tick, Tick]
      (start tagJson (finish () None (newBatchTask ''t'' 0 0 :: unit BatchTask)))) \<and>
   polling (run tagJson [Tick, Tick]
      (start tagJson (finish () None (newBatchTask ''t'' 0 0 :: unit BatchTask))))"
proof -
  define st0 where "st0 = start tagJson (newBatchTask ''t'' 0 200 :: unit BatchTask)"
  define st1 where "st1 = run tagJson (replicate 200 (Record True None)) st0"
  define st2 where "st2 = step tagJson (Finish () None) st1"
  define st3 where "st3 = tick tagJson st2"
  define st4 where "st4 = tick tagJson st3"
  have r: "run tagJson (replicate 200 (Record True None) @ [Finish () None, Tick, Tick]) st0 = st4"
    by (simp add: run_append st1_def st2_def st3_def st4_def)
  have i0: "enqueued st0 = [sseLine ''P''] \<and> \<not> closed st0 \<and> polling st0 \<and> s_handle st0 = 0 \<and>
            queues (s_task st0) = [(0, [])] \<and> status (s_task st0) = Running"
    by (simp add: st0_def stream_eval tagJson_def)
  have a0: "s_handle st0 \<in> fst ` set (queues (s_task st0))"
    and l0: "length (queueOf (s_handle st0) (s_task st0)) \<le> 200"
    and n0: "list_all (\<lambda>e. \<not> isFinal e) (queueOf (s_handle st0) (s_task st0))"
    using i0 by (simp_all add: queueOf_def)
  note r1 = run_records[OF a0 l0 n0, of tagJson 200 True None, folded st1_def]
  have q0: "queueOf (s_handle st0) (s_task st0) = []"
    using i0 by (simp add: queueOf_def)
  have i1: "enqueued st1 = [sseLine ''P''] \<and> \<not> closed st1 \<and> polling st1 \<and> s_handle st1 = 0 \<and>
            status (s_task st1) = Running \<and> 0 \<in> fst ` set (queues (s_task st1)) \<and>
            length (queueOf 0 (s_task st1)) = 200 \<and>
            list_all (\<lambda>e. \<not> isFinal e) (queueOf 0 (s_task st1))"
    using r1 i0 q0 by simp
  have a1: "s_handle st1 \<in> fst ` set (queues (s_task st1))"
    using i1 by simp
  note e2 = step_effect[OF a1, of "Finish () None" tagJson, folded st2_def]
  have q2: "queueOf 0 (s_task st2) = queueOf 0 (s_task st1)"
    using e2 i1 by (simp add: push_def)
  have i2: "enqueued st2 = [sseLine ''P''] \<and> \<not> closed st2 \<and> polling st2 \<and> s_handle st2 = 0 \<and>
            status (s_task st2) = Done"
    using e2 i1 by (simp add: st2_def finish_def publish_def Let_def)
  have nc2: "\<not> closed st2" using i2 by simp
  have nf2: "list_all (\<lambda>e. \<not> isFinal e) (queueOf (s_handle st2) (s_task st2))"
    using i1 i2 q2 by simp
  then have nofinal2: "\<not> (\<exists>e \<in> set (queueOf (s_handle st2) (s_task st2)). isFinal e)"
    by (simp add: list_all_iff)
  note d3 = drain_open[OF nc2, of tagJson "queueOf (s_handle st2) (s_task st2)"]
  have t3: "st3 = drain tagJson (queueOf (s_handle st2) (s_task st2)) st2"
    using i2 by (simp add: st3_def tick_def)
  have i3: "enqueued st3 = replicate 201 (sseLine ''P'') \<and> \<not> closed st3 \<and> polling st3 \<and>
            s_handle st3 = 0 \<and> s_task st3 = setQueue 0 [] (s_task st2)"
    using d3 nofinal2 i2 i1 q2 linesOf_tagJson[OF nf2] upToFinal_none[OF nf2]
    by (simp add: t3 flip: replicate_Suc)
  have q3: "queueOf (s_handle st3) (s_task st3) = []"
    using i3 by (simp add: queueOf_setQueue)
  have i4: "st4 = st3\<lparr>s_task := setQueue 0 [] (s_task st3)\<rparr>"
    using i3 q3 by (simp add: st4_def tick_def)
  have s4: "status (s_task st4) = Done"
    using i4 i3 i2 by (simp add: setQueue_def)
  have late: "enqueued (run tagJson [Tick, Tick]
      (start tagJson (finish () None (newBatchTask ''t'' 0 0 :: unit BatchTask)))) = [sseLine ''P''] \<and>
   \<not> closed (run tagJson [Tick, Tick]
      (start tagJson (finish () None (newBatchTask ''t'' 0 0 :: unit BatchTask)))) \<and>
   polling (run tagJson [Tick, Tick]
      (start tagJson (finish () None (newBatchTask ''t'' 0 0 :: unit BatchTask))))"
    by (simp add: stream_eval tagJson_def)
  show ?thesis
    using late i3 i4 s4 r unfolding st0_def by simp
qed

end
